theory Spec2Isabelle
  imports Main "HOL-Library.Word"
begin

unbundle bit_operations_syntax

section \<open>Bytes, errors and Go built-ins\<close>

type_synonym byte = "8 word"
type_synonym bytes = "byte list"

text \<open>
  Go error values the proxy produces or passes on. The constructors of the proxy's own
  errors carry what the message formats:
  \<^item> \<open>ErrVersion v\<close>: \<^verbatim>\<open>fmt.Errorf("expect version 5, got: %d", v)\<close>
  \<^item> \<open>ErrCommand\<close>: \<^verbatim>\<open>errors.New("not supported socks command")\<close>
  \<^item> \<open>ErrHeader\<close>: \<^verbatim>\<open>errors.New("fail to parse socks request header")\<close>
  \<^item> \<open>ErrAddrType\<close>: \<^verbatim>\<open>errors.New("not supported address type")\<close>
  \<^item> \<open>ErrInvalidIV n\<close>: \<^verbatim>\<open>fmt.Errorf("Invalid IV length: %d", n)\<close>
  \<^item> \<open>ErrRandomIV e\<close>: \<^verbatim>\<open>fmt.Errorf("Can't build random iv: %v", e)\<close>
  \<^item> \<open>KeySizeError n\<close>: \<^verbatim>\<open>aes.KeySizeError(n)\<close>
  \<^item> \<open>EOF\<close>, \<open>ErrUnexpectedEOF\<close>, \<open>ErrShortBuffer\<close>: the values of package io
  \<^item> \<open>NetError k\<close>: any other error of the transport, told apart by \<open>k\<close>
  \<^item> \<open>Panic msg\<close>: a run-time panic; it is never returned as an \<^verbatim>\<open>error\<close>, a function
    that can panic returns it as \<open>Inl\<close>.
\<close>

datatype error =
    EOF
  | ErrUnexpectedEOF
  | ErrShortBuffer
  | NetError nat
  | KeySizeError nat
  | ErrRandomIV error
  | ErrInvalidIV nat
  | ErrVersion byte
  | ErrCommand
  | ErrHeader
  | ErrAddrType
  | Panic string

text \<open>Go's built-in \<^verbatim>\<open>copy(dst, src)\<close>: the first \<open>min (len dst) (len src)\<close> bytes of
  \<open>dst\<close> are overwritten, the length of \<open>dst\<close> stays.\<close>

definition copy :: "bytes \<Rightarrow> bytes \<Rightarrow> bytes" where
  "copy dst src = take (length dst) src @ drop (length src) dst"

text \<open>\<^verbatim>\<open>make([]byte, n)\<close>: \<open>n\<close> zero bytes.\<close>

definition make_bytes :: "nat \<Rightarrow> bytes" where
  "make_bytes n = replicate n 0"

section \<open>The buffer pool\<close>

text \<open>
  \<^verbatim>\<open>type BytePool struct { bufSize int; pool chan []byte }\<close>.
  The buffered channel is the list of the buffers it holds, oldest first, with its
  capacity; both \<^verbatim>\<open>select\<close> statements have a \<^verbatim>\<open>default\<close> branch, so a receive from
  the empty channel and a send to the full channel fall through instead of blocking.
\<close>

record BytePool =
  bufSize :: nat
  pool :: "bytes list"
  poolCap :: nat

definition NewBytePool :: "nat \<Rightarrow> nat \<Rightarrow> BytePool" where
  "NewBytePool bs ps = \<lparr>bufSize = bs, pool = [], poolCap = ps\<rparr>"

definition bytePool0 :: BytePool where
  "bytePool0 = NewBytePool (4 * 1024) 2048"

definition Get :: "BytePool \<Rightarrow> bytes \<times> BytePool" where
  "Get bp =
     (case pool bp of
        b # rest \<Rightarrow> (b, bp\<lparr>pool := rest\<rparr>)
      | [] \<Rightarrow> (make_bytes (bufSize bp), bp))"

definition GetAtLeast :: "BytePool \<Rightarrow> nat \<Rightarrow> bytes \<times> BytePool" where
  "GetAtLeast bp sz =
     (if sz > bufSize bp then (make_bytes sz, bp) else Get bp)"

definition Put :: "BytePool \<Rightarrow> bytes \<Rightarrow> BytePool" where
  "Put bp b =
     (if length b \<noteq> bufSize bp then bp
      else if length (pool bp) < poolCap bp then bp\<lparr>pool := pool bp @ [b]\<rparr>
      else bp)"

text \<open>A run of pool operations from the callers of the pool, for stating what holds of
  every buffer the pool ever stores.\<close>

datatype pool_op = OpGet | OpGetAtLeast nat | OpPut bytes

fun pool_step :: "BytePool \<Rightarrow> pool_op \<Rightarrow> BytePool" where
  "pool_step bp OpGet = snd (Get bp)"
| "pool_step bp (OpGetAtLeast n) = snd (GetAtLeast bp n)"
| "pool_step bp (OpPut b) = Put bp b"

definition pool_run :: "BytePool \<Rightarrow> pool_op list \<Rightarrow> BytePool" where
  "pool_run bp ops = foldl pool_step bp ops"

definition pool_ok :: "BytePool \<Rightarrow> bool" where
  "pool_ok bp \<longleftrightarrow> list_all (\<lambda>b. length b = bufSize bp) (pool bp)"

section \<open>Key derivation\<close>

text \<open>\<^verbatim>\<open>sha256.Sum256\<close> returns a \<^verbatim>\<open>[32]byte\<close>; the digest function itself is a
  parameter of the model.\<close>

typedef digest = "{xs :: bytes. length xs = 32}"
  by (rule exI [of _ "replicate 32 0"]) simp

definition bytes_of_string :: "string \<Rightarrow> bytes" where
  "bytes_of_string s = map (\<lambda>c. of_nat (of_char c)) s"

definition keyLenMap :: "string \<rightharpoonup> nat" where
  "keyLenMap = [''aes-128-cfb'' \<mapsto> 16, ''aes-192-cfb'' \<mapsto> 24, ''aes-256-cfb'' \<mapsto> 32]"

definition toKey :: "(bytes \<Rightarrow> digest) \<Rightarrow> string \<Rightarrow> string \<Rightarrow> bytes" where
  "toKey Sum256 method password =
     (let keyLen = (case keyLenMap method of Some l \<Rightarrow> l | None \<Rightarrow> 32);
          bs = Rep_digest (Sum256 (bytes_of_string password))
      in take keyLen bs)"

section \<open>The stream cipher\<close>

text \<open>
  The proxy uses AES in CFB mode through Go's \<^verbatim>\<open>crypto/aes\<close> and \<^verbatim>\<open>crypto/cipher\<close>.
  The block function of AES is the parameter \<open>aes\<close> (key, then block); CFB mode is
  modelled after \<^verbatim>\<open>crypto/cipher/cfb.go\<close>, field by field.
\<close>

type_synonym blockfn = "bytes \<Rightarrow> bytes \<Rightarrow> bytes"

definition blockSize :: nat where
  "blockSize = 16"

text \<open>\<^verbatim>\<open>aes.NewCipher(key)\<close>: the key is 16, 24 or 32 bytes long, or the call fails with
  \<^verbatim>\<open>KeySizeError\<close>. The block it returns is given by its \<^verbatim>\<open>Encrypt\<close>.\<close>

definition aes_NewCipher :: "blockfn \<Rightarrow> bytes \<Rightarrow> error + (bytes \<Rightarrow> bytes)" where
  "aes_NewCipher aes k =
     (if length k = 16 \<or> length k = 24 \<or> length k = 32 then Inr (aes k)
      else Inl (KeySizeError (length k)))"

text \<open>\<^verbatim>\<open>type cfb struct { b Block; next, out []byte; outUsed int; decrypt bool }\<close>\<close>

record cfb =
  cfb_b :: "bytes \<Rightarrow> bytes"
  cfb_next :: bytes
  cfb_out :: bytes
  cfb_outUsed :: nat
  cfb_decrypt :: bool

text \<open>\<^verbatim>\<open>newCFB(block, iv, decrypt)\<close> panics unless the IV is one block long.\<close>

definition newCFB :: "(bytes \<Rightarrow> bytes) \<Rightarrow> bytes \<Rightarrow> bool \<Rightarrow> error + cfb" where
  "newCFB block iv decr =
     (if length iv \<noteq> blockSize
      then Inl (Panic ''cipher.newCFB: IV length must equal block size'')
      else Inr \<lparr>cfb_b = block,
                cfb_next = copy (make_bytes blockSize) iv,
                cfb_out = make_bytes blockSize,
                cfb_outUsed = blockSize,
                cfb_decrypt = decr\<rparr>)"

definition NewCFBEncrypter :: "(bytes \<Rightarrow> bytes) \<Rightarrow> bytes \<Rightarrow> error + cfb" where
  "NewCFBEncrypter block iv = newCFB block iv False"

definition NewCFBDecrypter :: "(bytes \<Rightarrow> bytes) \<Rightarrow> bytes \<Rightarrow> error + cfb" where
  "NewCFBDecrypter block iv = newCFB block iv True"

text \<open>\<^verbatim>\<open>subtle.XORBytes(dst, x, y)\<close>: the XOR of the first \<open>min (len x) (len y)\<close> bytes.\<close>

definition xorBytes :: "bytes \<Rightarrow> bytes \<Rightarrow> bytes" where
  "xorBytes xs ys = map (\<lambda>(a, b). a XOR b) (zip xs ys)"

text \<open>
  \<^verbatim>\<open>func (x *cfb) XORKeyStream(dst, src []byte)\<close>, for a \<open>dst\<close> as long as \<open>src\<close> (every
  call of the proxy passes two slices of one length); the result is the new contents of
  \<open>dst\<close> and the stream afterwards. Each round of the loop refills \<open>out\<close> from \<open>next\<close>
  when it is used up, XORs as many bytes as \<open>out\<close> still has, and feeds the ciphertext
  bytes back into \<open>next\<close>:
  \<^verbatim>\<open>
  for len(src) > 0 {
      if x.outUsed == len(x.out) { x.b.Encrypt(x.out, x.next); x.outUsed = 0 }
      if x.decrypt { copy(x.next[x.outUsed:], src) }
      n := xorBytes(dst, src, x.out[x.outUsed:])
      if !x.decrypt { copy(x.next[x.outUsed:], dst) }
      dst = dst[n:]; src = src[n:]; x.outUsed += n
  }
  \<close>
  \<open>Encrypt\<close> writes the block into the buffer \<open>out\<close>, whose length stays. Slicing
  \<open>out\<close> or \<open>next\<close> beyond its length panics. A stream made by \<open>newCFB\<close> has an
  \<open>out\<close> of \<open>blockSize\<close> bytes; for a record with an empty \<open>out\<close>, where the loop
  could not advance, the model stops with the same panic.
\<close>

function XORKeyStream :: "cfb \<Rightarrow> bytes \<Rightarrow> error + (bytes \<times> cfb)" where
  "XORKeyStream x src =
     (if src = [] then Inr ([], x)
      else
        let x1 = (if cfb_outUsed x = length (cfb_out x)
                  then x\<lparr>cfb_out := copy (cfb_out x) (cfb_b x (cfb_next x)), cfb_outUsed := 0\<rparr>
                  else x);
            u = cfb_outUsed x1
        in if length (cfb_out x1) \<le> u \<or> length (cfb_next x1) < u
           then Inl (Panic ''slice bounds out of range'')
           else
             let x2 = (if cfb_decrypt x1
                       then x1\<lparr>cfb_next := take u (cfb_next x1) @ copy (drop u (cfb_next x1)) src\<rparr>
                       else x1);
                 d = xorBytes src (drop u (cfb_out x2));
                 n = length d;
                 x3 = (if \<not> cfb_decrypt x2
                       then x2\<lparr>cfb_next := take u (cfb_next x2) @ copy (drop u (cfb_next x2)) d\<rparr>
                       else x2);
                 x4 = x3\<lparr>cfb_outUsed := u + n\<rparr>
             in (case XORKeyStream x4 (drop n src) of
                   Inl e \<Rightarrow> Inl e
                 | Inr (rest, x') \<Rightarrow> Inr (d @ rest, x')))"
  by pat_completeness auto
termination
proof (relation "measure (\<lambda>(x, src). length src)")
  show "wf (measure (\<lambda>(x, src). length src))" by simp
next
  fix x :: cfb and src :: bytes and x1 u x2 d n x3 x4
  assume "src \<noteq> []"
    and x1: "x1 = (if cfb_outUsed x = length (cfb_out x)
                  then x\<lparr>cfb_out := copy (cfb_out x) (cfb_b x (cfb_next x)), cfb_outUsed := 0\<rparr>
                  else x)"
    and u: "u = cfb_outUsed x1"
    and ok: "\<not> (length (cfb_out x1) \<le> u \<or> length (cfb_next x1) < u)"
    and x2: "x2 = (if cfb_decrypt x1
                       then x1\<lparr>cfb_next := take u (cfb_next x1) @ copy (drop u (cfb_next x1)) src\<rparr>
                       else x1)"
    and d: "d = xorBytes src (drop u (cfb_out x2))"
    and n: "n = length d"
  have "cfb_out x2 = cfb_out x1" using x2 by simp
  with ok d n \<open>src \<noteq> []\<close> have "0 < n" by (simp add: xorBytes_def)
  with \<open>src \<noteq> []\<close> show "((x4, drop n src), (x, src)) \<in> measure (\<lambda>(x, src). length src)"
    by simp
qed

declare XORKeyStream.simps [simp del]

section \<open>Readers and package io\<close>

text \<open>
  An \<^verbatim>\<open>io.Reader\<close> outside the program (the read side of a TCP connection,
  \<^verbatim>\<open>rand.Reader\<close>) is the script of what its \<^verbatim>\<open>Read\<close> calls will deliver: each entry is
  a chunk of bytes that arrives together, with the error reported once the chunk is
  handed out (\<open>None\<close> for nil). A \<^verbatim>\<open>Read\<close> into a buffer shorter than the chunk takes
  what fits and leaves the rest for the next call; at the end of the script every
  \<^verbatim>\<open>Read\<close> returns \<^verbatim>\<open>0, io.EOF\<close>. The result is the count and error, the buffer
  afterwards, and the reader afterwards.
\<close>

type_synonym reader = "(bytes \<times> error option) list"

fun reader_Read :: "reader \<Rightarrow> bytes \<Rightarrow> (nat \<times> error option) \<times> bytes \<times> reader" where
  "reader_Read [] p = ((0, Some EOF), p, [])"
| "reader_Read ((d, e) # r) p =
     (if length d \<le> length p then ((length d, e), copy p d, r)
      else ((length p, None), copy p d, (drop (length p) d, e) # r))"

definition reader_size :: "reader \<Rightarrow> nat" where
  "reader_size r = sum_list (map (\<lambda>(d, e). Suc (length d)) r)"

text \<open>
  \<^verbatim>\<open>io.ReadAtLeast(r, buf, min)\<close>:
  \<^verbatim>\<open>
  if len(buf) < min { return 0, ErrShortBuffer }
  for n < min && err == nil { var nn int; nn, err = r.Read(buf[n:]); n += nn }
  if n >= min { err = nil } else if n > 0 && err == EOF { err = ErrUnexpectedEOF }
  return
  \<close>
  \<open>ReadAtLeast_from\<close> is the function resumed with \<open>n\<close> bytes read; the length of the
  buffer does not change, so its first test is the one Go makes once.
\<close>

function ReadAtLeast_from ::
  "reader \<Rightarrow> bytes \<Rightarrow> nat \<Rightarrow> nat \<Rightarrow> (nat \<times> error option) \<times> bytes \<times> reader" where
  "ReadAtLeast_from r buf mn n =
     (if length buf < mn then ((0, Some ErrShortBuffer), buf, r)
      else if n < mn then
        (case reader_Read r (drop n buf) of
           ((nn, None), p, r') \<Rightarrow> ReadAtLeast_from r' (take n buf @ p) mn (n + nn)
         | ((nn, Some e), p, r') \<Rightarrow>
             ((n + nn,
               if n + nn \<ge> mn then None
               else if n + nn > 0 \<and> e = EOF then Some ErrUnexpectedEOF
               else Some e),
              take n buf @ p, r'))
      else ((n, None), buf, r))"
  by pat_completeness auto
termination
proof (relation "measure (\<lambda>(r, buf, mn, n). reader_size r)")
  show "wf (measure (\<lambda>(r, buf, mn, n). reader_size r))" by simp
next
  fix r :: reader and buf :: bytes and mn n :: nat and x y nn err p r'
  assume a: "\<not> length buf < mn" "n < mn"
    and rd: "(x, y) = reader_Read r (drop n buf)" "(nn, err) = x" "err = None" "(p, r') = y"
  from a have ne: "drop n buf \<noteq> []" by simp
  from rd have "reader_Read r (drop n buf) = ((nn, None), p, r')" by simp
  with ne have "reader_size r' < reader_size r"
    by (cases r) (auto simp: reader_size_def split: if_splits)
  then show "((r', take n buf @ p, mn, n + nn), (r, buf, mn, n))
      \<in> measure (\<lambda>(r, buf, mn, n). reader_size r)"
    by simp
qed

declare ReadAtLeast_from.simps [simp del]

definition ReadAtLeast ::
  "reader \<Rightarrow> bytes \<Rightarrow> nat \<Rightarrow> (nat \<times> error option) \<times> bytes \<times> reader" where
  "ReadAtLeast r buf mn = ReadAtLeast_from r buf mn 0"

definition ReadFull :: "reader \<Rightarrow> bytes \<Rightarrow> (nat \<times> error option) \<times> bytes \<times> reader" where
  "ReadFull r buf = ReadAtLeast r buf (length buf)"

section \<open>cipher.go\<close>

text \<open>\<^verbatim>\<open>type Cipher struct { enc, dec cipher.Stream; key []byte }\<close>; a nil stream is
  \<open>None\<close>.\<close>

record Cipher =
  enc :: "cfb option"
  dec :: "cfb option"
  key :: bytes

definition NewCipher :: "(bytes \<Rightarrow> digest) \<Rightarrow> string \<Rightarrow> string \<Rightarrow> Cipher" where
  "NewCipher Sum256 method password =
     \<lparr>enc = None, dec = None, key = toKey Sum256 method password\<rparr>"

text \<open>
  \<^verbatim>\<open>initEncrypt\<close> draws the IV from \<^verbatim>\<open>rand.Reader\<close>, a reader as above, and returns it
  with the error; a nil \<open>iv\<close> is the empty list.
\<close>

definition initEncrypt ::
  "blockfn \<Rightarrow> reader \<Rightarrow> Cipher \<Rightarrow> error + ((bytes \<times> error option) \<times> reader \<times> Cipher)" where
  "initEncrypt aes rnd c =
     (case aes_NewCipher aes (key c) of
        Inl err \<Rightarrow> Inr (([], Some err), rnd, c)
      | Inr block \<Rightarrow>
          (case ReadFull rnd (make_bytes blockSize) of
             ((_, Some err), _, rnd') \<Rightarrow> Inr (([], Some (ErrRandomIV err)), rnd', c)
           | ((_, None), iv, rnd') \<Rightarrow>
               (case NewCFBEncrypter block iv of
                  Inl p \<Rightarrow> Inl p
                | Inr s \<Rightarrow> Inr ((iv, None), rnd', c\<lparr>enc := Some s\<rparr>))))"

definition initDecrypt :: "blockfn \<Rightarrow> Cipher \<Rightarrow> bytes \<Rightarrow> error + (error option \<times> Cipher)" where
  "initDecrypt aes c iv =
     (case aes_NewCipher aes (key c) of
        Inl err \<Rightarrow> Inr (Some err, c)
      | Inr block \<Rightarrow>
          if length iv \<noteq> blockSize then Inr (Some (ErrInvalidIV (length iv)), c)
          else (case NewCFBDecrypter block iv of
                  Inl p \<Rightarrow> Inl p
                | Inr s \<Rightarrow> Inr (None, c\<lparr>dec := Some s\<rparr>)))"

text \<open>\<^verbatim>\<open>decrypt(dst, src)\<close> and \<^verbatim>\<open>encrypt(dst, src)\<close> return the bytes written to \<open>dst\<close>;
  calling the method of a nil stream panics.\<close>

definition decrypt :: "Cipher \<Rightarrow> bytes \<Rightarrow> error + (bytes \<times> Cipher)" where
  "decrypt c src =
     (case dec c of
        None \<Rightarrow> Inl (Panic ''nil pointer dereference'')
      | Some s \<Rightarrow>
          (case XORKeyStream s src of
             Inl p \<Rightarrow> Inl p
           | Inr (dst, s') \<Rightarrow> Inr (dst, c\<lparr>dec := Some s'\<rparr>)))"

definition encrypt :: "Cipher \<Rightarrow> bytes \<Rightarrow> error + (bytes \<times> Cipher)" where
  "encrypt c src =
     (case enc c of
        None \<Rightarrow> Inl (Panic ''nil pointer dereference'')
      | Some s \<Rightarrow>
          (case XORKeyStream s src of
             Inl p \<Rightarrow> Inl p
           | Inr (dst, s') \<Rightarrow> Inr (dst, c\<lparr>enc := Some s'\<rparr>)))"

section \<open>The transport\<close>

text \<open>
  A \<^verbatim>\<open>net.Conn\<close>: \<open>rx\<close> is its read side, a reader; \<open>tx\<close> lists what each \<^verbatim>\<open>Write\<close>
  call got onto the wire, in order; \<open>tx_outcomes\<close> is the script of the coming
  \<^verbatim>\<open>Write\<close> calls, \<open>None\<close> for a call that writes its whole buffer and \<open>Some (k, e)\<close>
  for one that fails with \<open>e\<close> after \<open>k\<close> bytes. Past the end of the script every
  \<^verbatim>\<open>Write\<close> succeeds.
\<close>

record netConn =
  rx :: reader
  tx_outcomes :: "(nat \<times> error) option list"
  tx :: "bytes list"

definition net_Read :: "netConn \<Rightarrow> bytes \<Rightarrow> (nat \<times> error option) \<times> bytes \<times> netConn" where
  "net_Read t p = (case reader_Read (rx t) p of (res, p', r') \<Rightarrow> (res, p', t\<lparr>rx := r'\<rparr>))"

definition net_Write :: "netConn \<Rightarrow> bytes \<Rightarrow> (nat \<times> error option) \<times> netConn" where
  "net_Write t p =
     (case tx_outcomes t of
        [] \<Rightarrow> ((length p, None), t\<lparr>tx := tx t @ [p]\<rparr>)
      | None # os \<Rightarrow> ((length p, None), t\<lparr>tx := tx t @ [p], tx_outcomes := os\<rparr>)
      | Some (k, e) # os \<Rightarrow>
          ((min k (length p), Some e), t\<lparr>tx := tx t @ [take k p], tx_outcomes := os\<rparr>))"

definition net_ReadAtLeast ::
  "netConn \<Rightarrow> bytes \<Rightarrow> nat \<Rightarrow> (nat \<times> error option) \<times> bytes \<times> netConn" where
  "net_ReadAtLeast t buf mn =
     (case ReadAtLeast (rx t) buf mn of (res, buf', r') \<Rightarrow> (res, buf', t\<lparr>rx := r'\<rparr>))"

definition net_ReadFull :: "netConn \<Rightarrow> bytes \<Rightarrow> (nat \<times> error option) \<times> bytes \<times> netConn" where
  "net_ReadFull t buf = net_ReadAtLeast t buf (length buf)"

section \<open>conn.go: the encrypted connection\<close>

text \<open>
  \<^verbatim>\<open>type Conn struct { net.Conn; cipher *Cipher }\<close>. The methods also use the global
  \<^verbatim>\<open>bytePool\<close>, and \<^verbatim>\<open>Write\<close> the global \<^verbatim>\<open>rand.Reader\<close>; both are passed in and
  returned. A result \<open>Inl\<close> is a panic; \<open>Inr\<close> carries the count and error returned, the
  caller's buffer afterwards (for \<^verbatim>\<open>Read\<close>), and the state afterwards.
\<close>

record Conn =
  conn :: netConn
  cipher :: Cipher

definition NewConn :: "netConn \<Rightarrow> Cipher \<Rightarrow> Conn" where
  "NewConn t ci = \<lparr>conn = t, cipher = ci\<rparr>"

text \<open>
  \<^verbatim>\<open>func (c *Conn) Read(b []byte) (n int, err error)\<close>. The first \<open>case\<close> is the
  \<^verbatim>\<open>if c.cipher.dec == nil\<close> block: \<open>Inr (Inl (err, c'))\<close> is its early return of
  \<open>0, err\<close>, \<open>Inr (Inr c')\<close> falls through. The pooled buffer is sliced to \<open>len(b)\<close>, the
  transport reads into it once, and the deferred \<^verbatim>\<open>Put\<close> hands it back as it then is.
\<close>

definition Conn_Read ::
  "blockfn \<Rightarrow> BytePool \<Rightarrow> Conn \<Rightarrow> bytes
     \<Rightarrow> error + ((nat \<times> error option) \<times> bytes \<times> BytePool \<times> Conn)" where
  "Conn_Read aes bp c b =
     (case (if dec (cipher c) = None
            then (case net_ReadFull (conn c) (make_bytes blockSize) of
                    ((_, Some err), _, t') \<Rightarrow> Inr (Inl (err, c\<lparr>conn := t'\<rparr>))
                  | ((_, None), iv, t') \<Rightarrow>
                      (case initDecrypt aes (cipher c) iv of
                         Inl p \<Rightarrow> Inl p
                       | Inr (Some err, ci) \<Rightarrow> Inr (Inl (err, c\<lparr>conn := t', cipher := ci\<rparr>))
                       | Inr (None, ci) \<Rightarrow> Inr (Inr (c\<lparr>conn := t', cipher := ci\<rparr>))))
            else Inr (Inr c)) of
        Inl p \<Rightarrow> Inl p
      | Inr (Inl (err, c1)) \<Rightarrow> Inr ((0, Some err), b, bp, c1)
      | Inr (Inr c1) \<Rightarrow>
          (case GetAtLeast bp (length b) of
             (buf, bp1) \<Rightarrow>
               if length buf < length b then Inl (Panic ''slice bounds out of range'')
               else
                 (case net_Read (conn c1) (take (length b) buf) of
                    ((n, err), encBytes, t2) \<Rightarrow>
                      let bp2 = Put bp1 (copy buf encBytes)
                      in if n > 0
                         then (case decrypt (cipher c1) (take n encBytes) of
                                 Inl p \<Rightarrow> Inl p
                               | Inr (plain, ci2) \<Rightarrow>
                                   Inr ((n, err), copy b plain, bp2,
                                        c1\<lparr>conn := t2, cipher := ci2\<rparr>))
                         else Inr ((n, err), b, bp2, c1\<lparr>conn := t2\<rparr>))))"

text \<open>
  \<^verbatim>\<open>func (c *Conn) Write(b []byte) (n int, err error)\<close>. \<open>iv\<close> stays nil (empty) when
  the encrypter exists already. \<open>encBytes\<close> is the pooled buffer sliced to
  \<open>len(iv)+len(b)\<close>; the IV is copied to its front, the ciphertext written behind it,
  and the whole slice goes to the transport in one \<^verbatim>\<open>Write\<close>.
\<close>

definition Conn_Write ::
  "blockfn \<Rightarrow> BytePool \<Rightarrow> reader \<Rightarrow> Conn \<Rightarrow> bytes
     \<Rightarrow> error + ((nat \<times> error option) \<times> BytePool \<times> reader \<times> Conn)" where
  "Conn_Write aes bp rnd c b =
     (case (if enc (cipher c) = None
            then (case initEncrypt aes rnd (cipher c) of
                    Inl p \<Rightarrow> Inl p
                  | Inr ((iv, Some err), rnd', ci) \<Rightarrow> Inr (Inl (err, rnd', c\<lparr>cipher := ci\<rparr>))
                  | Inr ((iv, None), rnd', ci) \<Rightarrow> Inr (Inr (iv, rnd', c\<lparr>cipher := ci\<rparr>)))
            else Inr (Inr ([], rnd, c))) of
        Inl p \<Rightarrow> Inl p
      | Inr (Inl (err, rnd', c1)) \<Rightarrow> Inr ((0, Some err), bp, rnd', c1)
      | Inr (Inr (iv, rnd', c1)) \<Rightarrow>
          let encLen = length iv + length b
          in (case GetAtLeast bp encLen of
                (buf, bp1) \<Rightarrow>
                  if length buf < encLen then Inl (Panic ''slice bounds out of range'')
                  else
                    let encBytes = take encLen buf;
                        encBytes1 = (if length iv > 0 then copy encBytes iv else encBytes)
                    in (case encrypt (cipher c1) b of
                          Inl p \<Rightarrow> Inl p
                        | Inr (ct, ci2) \<Rightarrow>
                            let encBytes2 = take (length iv) encBytes1
                                  @ copy (drop (length iv) encBytes1) ct
                            in (case net_Write (conn c1) encBytes2 of
                                  ((n, err), t2) \<Rightarrow>
                                    Inr ((n, err), Put bp1 (copy buf encBytes2), rnd',
                                         c1\<lparr>conn := t2, cipher := ci2\<rparr>)))))"

section \<open>The SOCKS5 front end\<close>

definition socksVer5 :: byte where "socksVer5 = 0x05"
definition cmdConnect :: byte where "cmdConnect = 0x01"
definition typeIPv4 :: byte where "typeIPv4 = 1"
definition typeDomain :: byte where "typeDomain = 3"
definition typeIPv6 :: byte where "typeIPv6 = 4"
definition IPv4len :: nat where "IPv4len = 4"
definition IPv6len :: nat where "IPv6len = 16"

text \<open>\<^verbatim>\<open>func handsake(conn net.Conn) error\<close>: the error returned (\<open>None\<close> for nil) and
  the connection afterwards.\<close>

definition handsake :: "netConn \<Rightarrow> error option \<times> netConn" where
  "handsake t =
     (case net_ReadAtLeast t (make_bytes 258) 2 of
        ((n, Some err), buf, t1) \<Rightarrow> (Some err, t1)
      | ((n, None), buf, t1) \<Rightarrow>
          if buf ! 0 \<noteq> socksVer5 then (Some (ErrVersion (buf ! 0)), t1)
          else
            let nmethods = unat (buf ! 1)
            in if n \<noteq> nmethods + 2 then (Some ErrHeader, t1)
               else (case net_Write t1 [socksVer5, 0x00] of
                       ((_, Some err), t2) \<Rightarrow> (Some err, t2)
                     | ((_, None), t2) \<Rightarrow> (None, t2)))"

text \<open>\<^verbatim>\<open>func readRawAddr(conn net.Conn) (addr []byte, err error)\<close>; \<open>addr\<close> stays nil
  (empty) on every error return. \<open>reqLen\<close> is \<open>None\<close> in the \<^verbatim>\<open>default\<close> branch of the
  switch.\<close>

definition readRawAddr :: "netConn \<Rightarrow> (bytes \<times> error option) \<times> netConn" where
  "readRawAddr t =
     (case net_ReadAtLeast t (make_bytes 262) 5 of
        ((n, Some err), buf, t1) \<Rightarrow> (([], Some err), t1)
      | ((n, None), buf, t1) \<Rightarrow>
          if buf ! 0 \<noteq> socksVer5 then (([], Some (ErrVersion (buf ! 0))), t1)
          else if buf ! 1 \<noteq> cmdConnect then (([], Some ErrCommand), t1)
          else
            (case (if buf ! 3 = typeIPv4 then Some (4 + IPv4len + 2)
                   else if buf ! 3 = typeIPv6 then Some (4 + IPv6len + 2)
                   else if buf ! 3 = typeDomain then Some (4 + 1 + 2 + unat (buf ! 4))
                   else None) of
               None \<Rightarrow> (([], Some ErrAddrType), t1)
             | Some reqLen \<Rightarrow>
                 if n \<noteq> reqLen then (([], Some ErrHeader), t1)
                 else ((take (reqLen - 3) (drop 3 buf), None), t1)))"

section \<open>conn.go: the server-side address decoder\<close>

text \<open>
  \<^verbatim>\<open>io.ReadAtLeast\<close> and \<^verbatim>\<open>io.ReadFull\<close> again, for a reader that is the encrypted
  connection: the same loop, calling \<open>Conn_Read\<close>. A \<open>Read\<close> that returns a nil error on
  a non-empty buffer has used up part of the transport's script, so the loop ends.
\<close>

function Conn_ReadAtLeast_from ::
  "blockfn \<Rightarrow> BytePool \<Rightarrow> Conn \<Rightarrow> bytes \<Rightarrow> nat \<Rightarrow> nat
     \<Rightarrow> error + ((nat \<times> error option) \<times> bytes \<times> BytePool \<times> Conn)" where
  "Conn_ReadAtLeast_from aes bp c buf mn n =
     (if length buf < mn then Inr ((0, Some ErrShortBuffer), buf, bp, c)
      else if n < mn then
        (case Conn_Read aes bp c (drop n buf) of
           Inl p \<Rightarrow> Inl p
         | Inr ((nn, None), p, bp', c') \<Rightarrow>
             Conn_ReadAtLeast_from aes bp' c' (take n buf @ p) mn (n + nn)
         | Inr ((nn, Some e), p, bp', c') \<Rightarrow>
             Inr ((n + nn,
                   if n + nn \<ge> mn then None
                   else if n + nn > 0 \<and> e = EOF then Some ErrUnexpectedEOF
                   else Some e),
                  take n buf @ p, bp', c'))
      else Inr ((n, None), buf, bp, c))"
  by pat_completeness auto
termination
proof (relation "measure (\<lambda>(aes, bp, c, buf, mn, n). reader_size (rx (conn c)))")
  show "wf (measure (\<lambda>(aes, bp, c, buf, mn, n). reader_size (rx (conn c))))" by simp
next
  fix aes :: blockfn and bp :: BytePool and c :: Conn and buf :: bytes and mn n :: nat
    and x2 x y nn err p y2 bp' c'
  assume a: "\<not> length buf < mn" "n < mn"
    and rd: "Conn_Read aes bp c (drop n buf) = Inr x2" "(x, y) = x2" "(nn, err) = x"
      "err = None" "(p, y2) = y" "(bp', c') = y2"
  have step: "reader_size r' < reader_size r"
    if "reader_Read r q = ((k, None), q', r')" "q \<noteq> []" for r q k q' r'
    using that by (cases r; cases q) (auto simp: reader_size_def split: if_splits)
  have mono: "reader_size r' \<le> reader_size r"
    if "ReadAtLeast_from r b m k = (res, b', r')" for r b m k res b' r'
    using that
  proof (induction r b m k arbitrary: res b' r' rule: ReadAtLeast_from.induct)
    case (1 r b m k)
    obtain j e q r1 where q: "reader_Read r (drop k b) = ((j, e), q, r1)"
      by (metis prod_cases3 surj_pair)
    have r1: "reader_size r1 \<le> reader_size r"
      using q by (cases r) (auto simp: reader_size_def split: if_splits)
    show ?case
    proof (cases "\<not> length b < m \<and> k < m \<and> e = None")
      case True
      with q "1.prems" have "ReadAtLeast_from r1 (take k b @ q) m (k + j) = (res, b', r')"
        by (subst (asm) ReadAtLeast_from.simps) simp
      from "1.IH" [OF _ _ q [symmetric] refl _ refl this] True r1 show ?thesis by simp
    next
      case False
      with q "1.prems" r1 show ?thesis
        by (subst (asm) ReadAtLeast_from.simps) (auto split: if_splits option.splits)
    qed
  qed
  from a have ne: "drop n buf \<noteq> []" by simp
  from rd have cr: "Conn_Read aes bp c (drop n buf) = Inr ((nn, None), p, bp', c')" by simp
  have "reader_size (rx (conn c')) < reader_size (rx (conn c))"
  proof -
    obtain c1 where c1: "reader_size (rx (conn c1)) \<le> reader_size (rx (conn c))"
      and rest: "(case GetAtLeast bp (length (drop n buf)) of
             (pb, bp1) \<Rightarrow>
               if length pb < length (drop n buf) then Inl (Panic ''slice bounds out of range'')
               else
                 (case net_Read (conn c1) (take (length (drop n buf)) pb) of
                    ((k, err), encBytes, t2) \<Rightarrow>
                      let bp2 = Put bp1 (copy pb encBytes)
                      in if k > 0
                         then (case decrypt (cipher c1) (take k encBytes) of
                                 Inl p \<Rightarrow> Inl p
                               | Inr (plain, ci2) \<Rightarrow>
                                   Inr ((k, err), copy (drop n buf) plain, bp2,
                                        c1\<lparr>conn := t2, cipher := ci2\<rparr>))
                         else Inr ((k, err), drop n buf, bp2, c1\<lparr>conn := t2\<rparr>)))
          = Inr ((nn, None), p, bp', c')"
    proof (cases "dec (cipher c) = None")
      case False
      with cr have "(case GetAtLeast bp (length (drop n buf)) of
             (pb, bp1) \<Rightarrow>
               if length pb < length (drop n buf) then Inl (Panic ''slice bounds out of range'')
               else
                 (case net_Read (conn c) (take (length (drop n buf)) pb) of
                    ((k, err), encBytes, t2) \<Rightarrow>
                      let bp2 = Put bp1 (copy pb encBytes)
                      in if k > 0
                         then (case decrypt (cipher c) (take k encBytes) of
                                 Inl p \<Rightarrow> Inl p
                               | Inr (plain, ci2) \<Rightarrow>
                                   Inr ((k, err), copy (drop n buf) plain, bp2,
                                        c\<lparr>conn := t2, cipher := ci2\<rparr>))
                         else Inr ((k, err), drop n buf, bp2, c\<lparr>conn := t2\<rparr>)))
          = Inr ((nn, None), p, bp', c')"
        unfolding Conn_Read_def by simp
      then show ?thesis using that [of c] by simp
    next
      case True
      obtain k e ivb t' where f: "net_ReadFull (conn c) (make_bytes blockSize) = ((k, e), ivb, t')"
        by (metis prod_cases3 surj_pair)
      then have le: "reader_size (rx t') \<le> reader_size (rx (conn c))"
        using mono [of "rx (conn c)" "make_bytes blockSize" "length (make_bytes blockSize)" 0]
        by (auto simp: net_ReadFull_def net_ReadAtLeast_def ReadAtLeast_def split: prod.splits)
      from cr True f obtain ci where e: "e = None"
        and i: "initDecrypt aes (cipher c) ivb = Inr (None, ci)"
        unfolding Conn_Read_def
        by (cases e; cases "initDecrypt aes (cipher c) ivb")
           (auto split: option.splits)
      from cr True f e i have "(case GetAtLeast bp (length (drop n buf)) of
             (pb, bp1) \<Rightarrow>
               if length pb < length (drop n buf) then Inl (Panic ''slice bounds out of range'')
               else
                 (case net_Read (conn (c\<lparr>conn := t', cipher := ci\<rparr>))
                         (take (length (drop n buf)) pb) of
                    ((k, err), encBytes, t2) \<Rightarrow>
                      let bp2 = Put bp1 (copy pb encBytes)
                      in if k > 0
                         then (case decrypt (cipher (c\<lparr>conn := t', cipher := ci\<rparr>))
                                      (take k encBytes) of
                                 Inl p \<Rightarrow> Inl p
                               | Inr (plain, ci2) \<Rightarrow>
                                   Inr ((k, err), copy (drop n buf) plain, bp2,
                                        c\<lparr>conn := t', cipher := ci\<rparr>\<lparr>conn := t2, cipher := ci2\<rparr>))
                         else Inr ((k, err), drop n buf, bp2,
                                   c\<lparr>conn := t', cipher := ci\<rparr>\<lparr>conn := t2\<rparr>)))
          = Inr ((nn, None), p, bp', c')"
        unfolding Conn_Read_def by simp
      then show ?thesis using that [of "c\<lparr>conn := t', cipher := ci\<rparr>"] le by simp
    qed
    obtain pb bp1 where g: "GetAtLeast bp (length (drop n buf)) = (pb, bp1)"
      by (cases "GetAtLeast bp (length (drop n buf))")
    obtain k e eb t2 where nr: "net_Read (conn c1) (take (length (drop n buf)) pb) = ((k, e), eb, t2)"
      by (metis prod_cases3 surj_pair)
    from rest g nr have big: "\<not> length pb < length (drop n buf)" and e: "e = None"
      and t2: "rx (conn c') = rx t2"
      by (auto simp: Let_def split: if_splits sum.splits)
    from big ne have "take (length (drop n buf)) pb \<noteq> []" by auto
    with nr e have "reader_size (rx t2) < reader_size (rx (conn c1))"
      using step [of "rx (conn c1)" "take (length (drop n buf)) pb" k]
      by (auto simp: net_Read_def split: prod.splits)
    with c1 t2 show ?thesis by simp
  qed
  then show "((aes, bp', c', take n buf @ p, mn, n + nn), (aes, bp, c, buf, mn, n))
      \<in> measure (\<lambda>(aes, bp, c, buf, mn, n). reader_size (rx (conn c)))"
    by simp
qed

declare Conn_ReadAtLeast_from.simps [simp del]

definition Conn_ReadFull ::
  "blockfn \<Rightarrow> BytePool \<Rightarrow> Conn \<Rightarrow> bytes
     \<Rightarrow> error + ((nat \<times> error option) \<times> bytes \<times> BytePool \<times> Conn)" where
  "Conn_ReadFull aes bp c buf = Conn_ReadAtLeast_from aes bp c buf (length buf) 0"

text \<open>\<^verbatim>\<open>binary.BigEndian.Uint16(b)\<close> is \<^verbatim>\<open>uint16(b[1]) | uint16(b[0])<<8\<close>;
  \<^verbatim>\<open>strconv.Itoa\<close> of a number that is not negative; \<^verbatim>\<open>string(b)\<close> of a byte slice.\<close>

definition BigEndian_Uint16 :: "bytes \<Rightarrow> 16 word" where
  "BigEndian_Uint16 b = ucast (b ! 1) OR push_bit 8 (ucast (b ! 0))"

fun Itoa :: "nat \<Rightarrow> string" where
  "Itoa n = (if n < 10 then [''0123456789'' ! n]
             else Itoa (n div 10) @ [''0123456789'' ! (n mod 10)])"

declare Itoa.simps [simp del]

definition string_of_bytes :: "bytes \<Rightarrow> string" where
  "string_of_bytes b = map (\<lambda>x. char_of (unat x)) b"

text \<open>
  \<^verbatim>\<open>func readTargetHost(conn *Conn) (host string, err error)\<close>. The text form of an IP
  address (\<^verbatim>\<open>net.IP.String\<close>) and \<^verbatim>\<open>net.JoinHostPort\<close> are parameters. The first \<open>case\<close>
  is the first switch: \<open>Inr (Inl (err, _))\<close> is an error return from it, \<open>Inr (Inr _)\<close>
  carries \<open>reqStart\<close>, \<open>reqEnd\<close> and the buffer on. \<open>host\<close> is empty on every error return.
\<close>

definition readTargetHost ::
  "(bytes \<Rightarrow> string) \<Rightarrow> (string \<Rightarrow> string \<Rightarrow> string) \<Rightarrow> blockfn \<Rightarrow> BytePool \<Rightarrow> Conn
     \<Rightarrow> error + ((string \<times> error option) \<times> BytePool \<times> Conn)" where
  "readTargetHost IP_String JoinHostPort aes bp c =
     (let buf = make_bytes 269
      in (case Conn_ReadFull aes bp c (take 1 buf) of
            Inl p \<Rightarrow> Inl p
          | Inr ((_, Some err), _, bp1, c1) \<Rightarrow> Inr (([], Some err), bp1, c1)
          | Inr ((_, None), p1, bp1, c1) \<Rightarrow>
              let buf1 = p1 @ drop 1 buf;
                  addrType = buf1 ! 0
              in (case (if addrType = typeIPv4
                        then Inr (Inr (1, 1 + IPv4len + 2, buf1, bp1, c1))
                        else if addrType = typeIPv6
                        then Inr (Inr (1, 1 + IPv6len + 2, buf1, bp1, c1))
                        else if addrType = typeDomain
                        then (case Conn_ReadFull aes bp1 c1 (take 1 (drop 1 buf1)) of
                                Inl p \<Rightarrow> Inl p
                              | Inr ((_, Some err), _, bp2, c2) \<Rightarrow> Inr (Inl (err, bp2, c2))
                              | Inr ((_, None), p2, bp2, c2) \<Rightarrow>
                                  let buf2 = take 1 buf1 @ p2 @ drop 2 buf1
                                  in Inr (Inr (2, 2 + unat (buf2 ! 1) + 2, buf2, bp2, c2)))
                        else Inr (Inl (ErrAddrType, bp1, c1))) of
                    Inl p \<Rightarrow> Inl p
                  | Inr (Inl (err, bp2, c2)) \<Rightarrow> Inr (([], Some err), bp2, c2)
                  | Inr (Inr (reqStart, reqEnd, buf2, bp2, c2)) \<Rightarrow>
                      (case Conn_ReadFull aes bp2 c2
                              (take (reqEnd - reqStart) (drop reqStart buf2)) of
                         Inl p \<Rightarrow> Inl p
                       | Inr ((_, Some err), _, bp3, c3) \<Rightarrow> Inr (([], Some err), bp3, c3)
                       | Inr ((_, None), p3, bp3, c3) \<Rightarrow>
                           let buf3 = take reqStart buf2 @ p3 @ drop reqEnd buf2;
                               host = (if addrType = typeIPv4
                                       then IP_String (take IPv4len (drop 1 buf3))
                                       else if addrType = typeIPv6
                                       then IP_String (take IPv6len (drop 1 buf3))
                                       else if addrType = typeDomain
                                       then string_of_bytes (take (unat (buf3 ! 1)) (drop 2 buf3))
                                       else []);
                               port = BigEndian_Uint16 (take 2 (drop (reqEnd - 2) buf3))
                           in Inr ((JoinHostPort host (Itoa (unat port)), None), bp3, c3)))))"

section \<open>Well-formed streams and sample inputs\<close>

text \<open>What \<open>newCFB\<close> establishes and \<open>XORKeyStream\<close> keeps: both buffers are one block
  long and \<open>outUsed\<close> is an index into them.\<close>

definition cfb_ok :: "cfb \<Rightarrow> bool" where
  "cfb_ok x \<longleftrightarrow>
     length (cfb_out x) = blockSize \<and> length (cfb_next x) = blockSize
     \<and> cfb_outUsed x \<le> blockSize"

text \<open>Stand-ins for the two library parameters, small enough to compute with, and the
  inputs the worked examples run on.\<close>

definition toy_Sum256 :: "bytes \<Rightarrow> digest" where
  "toy_Sum256 m = Abs_digest (replicate 32 (of_nat (length m)))"

definition toy_aes :: blockfn where
  "toy_aes k blk = map (\<lambda>b. 3 * b + of_nat (length k)) blk"

definition sample_iv :: bytes where
  "sample_iv = [1, 2, 3, 4, 5, 6, 7, 8, 9, 10, 11, 12, 13, 14, 15, 16]"

definition sample_payload :: bytes where
  "sample_payload = [3, 11, 101, 120, 97, 109, 112, 108, 101, 46, 99, 111, 109, 0, 80, 71, 69, 84]"

definition sample_ciphertext :: bytes where
  "sample_ciphertext = [16, 29, 124, 100, 126, 79, 85, 68, 78, 0, 82, 91, 90, 58, 109, 7, 5, 51]"

definition sample_cipher :: Cipher where
  "sample_cipher = NewCipher toy_Sum256 ''aes-128-cfb'' ''pw''"

text \<open>Connections whose peer sends one SOCKS5 message in one piece: the greeting and the
  CONNECT request of the specification's examples, and two requests of version 4.\<close>

definition greeting0 :: netConn where
  "greeting0 = \<lparr>rx = [([0x05, 0x02, 0x00, 0x01], None)], tx_outcomes = [], tx = []\<rparr>"

definition request0 :: netConn where
  "request0 = \<lparr>rx = [([0x05, 0x01, 0x00, 0x01, 127, 0, 0, 1, 0x1F, 0x90], None)],
      tx_outcomes = [], tx = []\<rparr>"

definition request_v4 :: netConn where
  "request_v4 = \<lparr>rx = [([0x04, 0x02, 0x00, 0x01, 127, 0, 0, 1, 0x1F, 0x90], None)],
      tx_outcomes = [], tx = []\<rparr>"

definition request_v4_short :: netConn where
  "request_v4_short = \<lparr>rx = [([0x04, 0x02, 0x00, 0x09, 1], None)], tx_outcomes = [], tx = []\<rparr>"

text \<open>The part of \<^verbatim>\<open>Write\<close> that follows the \<^verbatim>\<open>if c.cipher.enc == nil\<close> block, named
  for the proofs; \<open>Conn_Write\<close> is that block followed by this.\<close>

definition Conn_Write_tail ::
  "BytePool \<Rightarrow> reader \<Rightarrow> Conn \<Rightarrow> bytes \<Rightarrow> bytes
     \<Rightarrow> error + ((nat \<times> error option) \<times> BytePool \<times> reader \<times> Conn)" where
  "Conn_Write_tail bp rnd' c1 iv b =
     (let encLen = length iv + length b
      in (case GetAtLeast bp encLen of
            (buf, bp1) \<Rightarrow>
              if length buf < encLen then Inl (Panic ''slice bounds out of range'')
              else
                let encBytes = take encLen buf;
                    encBytes1 = (if length iv > 0 then copy encBytes iv else encBytes)
                in (case encrypt (cipher c1) b of
                      Inl p \<Rightarrow> Inl p
                    | Inr (ct, ci2) \<Rightarrow>
                        let encBytes2 = take (length iv) encBytes1
                              @ copy (drop (length iv) encBytes1) ct
                        in (case net_Write (conn c1) encBytes2 of
                              ((n, err), t2) \<Rightarrow>
                                Inr ((n, err), Put bp1 (copy buf encBytes2), rnd',
                                     c1\<lparr>conn := t2, cipher := ci2\<rparr>)))))"

text \<open>A small pool and three encrypted connections for the worked examples: one whose
  peer sends the IV and then the sample ciphertext, one whose peer stops after three
  bytes, and one with nothing to read, for writing. \<open>read_view\<close> and \<open>write_view\<close> keep
  of a result what can be compared: the count and error, the caller's buffer, the
  buffers in the pool, what is left to read or of the random source, and what was sent.\<close>

definition small_pool :: BytePool where
  "small_pool = NewBytePool 64 2"

definition conn_in :: Conn where
  "conn_in = NewConn \<lparr>rx = [(sample_iv, None), (sample_ciphertext, None)], tx_outcomes = [], tx = []\<rparr>
      sample_cipher"

definition conn_cut :: Conn where
  "conn_cut = NewConn \<lparr>rx = [([1, 2, 3], None)], tx_outcomes = [], tx = []\<rparr> sample_cipher"

definition conn_out :: Conn where
  "conn_out = NewConn \<lparr>rx = [], tx_outcomes = [], tx = []\<rparr> sample_cipher"

definition sample_stream :: "bool \<Rightarrow> cfb" where
  "sample_stream d = \<lparr>cfb_b = toy_aes (key sample_cipher), cfb_next = sample_iv,
      cfb_out = make_bytes blockSize, cfb_outUsed = blockSize, cfb_decrypt = d\<rparr>"

definition conn_ready :: Conn where
  "conn_ready = NewConn \<lparr>rx = [(sample_ciphertext, None)], tx_outcomes = [], tx = []\<rparr>
      (sample_cipher\<lparr>enc := Some (sample_stream False), dec := Some (sample_stream True)\<rparr>)"

definition read_view ::
  "error + ((nat \<times> error option) \<times> bytes \<times> BytePool \<times> Conn)
     \<Rightarrow> error + ((nat \<times> error option) \<times> bytes \<times> bytes list \<times> reader)" where
  "read_view r = map_sum id (\<lambda>(res, b, bp, c). (res, b, pool bp, rx (conn c))) r"

definition write_view ::
  "error + ((nat \<times> error option) \<times> BytePool \<times> reader \<times> Conn)
     \<Rightarrow> error + ((nat \<times> error option) \<times> bytes list \<times> reader \<times> bytes list)" where
  "write_view r = map_sum id (\<lambda>(res, bp, rnd, c). (res, pool bp, rnd, tx (conn c))) r"

text \<open>Stand-ins for \<^verbatim>\<open>net.JoinHostPort\<close> and \<^verbatim>\<open>net.IP.String\<close> in the worked example.\<close>

definition sample_join :: "string \<Rightarrow> string \<Rightarrow> string" where
  "sample_join h p = h @ '':'' @ p"

definition sample_ip :: "bytes \<Rightarrow> string" where
  "sample_ip b = concat (map (\<lambda>x. Itoa (unat x) @ ''.'') b)"

section \<open>Properties of the buffer pool\<close>

lemma pool_ok_Get: "pool_ok bp \<Longrightarrow> pool_ok (snd (Get bp))"
  by (auto simp: pool_ok_def Get_def split: list.splits)

lemma pool_ok_GetAtLeast: "pool_ok bp \<Longrightarrow> pool_ok (snd (GetAtLeast bp n))"
  by (simp add: GetAtLeast_def pool_ok_Get)

lemma pool_ok_Put: "pool_ok bp \<Longrightarrow> pool_ok (Put bp b)"
  by (auto simp: pool_ok_def Put_def)

lemma pool_ok_step: "pool_ok bp \<Longrightarrow> pool_ok (pool_step bp x)"
  by (cases x) (simp_all add: pool_ok_Get pool_ok_GetAtLeast pool_ok_Put)

lemma bufSize_Get: "bufSize (snd (Get bp)) = bufSize bp"
  by (simp add: Get_def split: list.splits)

lemma bufSize_GetAtLeast: "bufSize (snd (GetAtLeast bp n)) = bufSize bp"
  by (simp add: GetAtLeast_def bufSize_Get)

lemma bufSize_Put: "bufSize (Put bp b) = bufSize bp"
  by (simp add: Put_def)

lemma bufSize_step: "bufSize (pool_step bp x) = bufSize bp"
  by (cases x) (simp_all add: bufSize_Get bufSize_GetAtLeast bufSize_Put)

lemma pool_ok_run: "pool_ok bp \<Longrightarrow> pool_ok (pool_run bp ops)"
  unfolding pool_run_def
  by (induction ops arbitrary: bp) (simp_all add: pool_ok_step)

lemma bufSize_run: "bufSize (pool_run bp ops) = bufSize bp"
  unfolding pool_run_def
  by (induction ops arbitrary: bp) (simp_all add: bufSize_step)

lemma pool_ok_New: "pool_ok (NewBytePool bs ps)"
  by (simp add: pool_ok_def NewBytePool_def)

text \<open>
  Claim C9. \<open>Put\<close> of a buffer whose length is not the pool's \<open>bufSize\<close> leaves the pool
  as it was; \<open>Get\<close> on an empty pool returns at once a new buffer of \<open>bufSize\<close> zero
  bytes and leaves the pool empty; and after any run of \<open>Get\<close>, \<open>GetAtLeast\<close> and \<open>Put\<close>
  calls on a pool made by \<open>NewBytePool\<close>, every buffer held in the pool has exactly
  \<open>bufSize\<close> bytes. The proxy's pool has \<open>bufSize\<close> 4096.
\<close>

theorem BytePool_fixed_size:
  "(length b \<noteq> bufSize bp \<longrightarrow> Put bp b = bp)
   \<and> (pool bp = [] \<longrightarrow> Get bp = (make_bytes (bufSize bp), bp)
        \<and> length (fst (Get bp)) = bufSize bp)
   \<and> (\<forall>b' \<in> set (pool (pool_run (NewBytePool bs ps) ops)). length b' = bs)
   \<and> bufSize bytePool0 = 4096"
proof (intro conjI)
  show "length b \<noteq> bufSize bp \<longrightarrow> Put bp b = bp"
    by (simp add: Put_def)
  show "pool bp = [] \<longrightarrow> Get bp = (make_bytes (bufSize bp), bp)
        \<and> length (fst (Get bp)) = bufSize bp"
    by (simp add: Get_def make_bytes_def)
  have "pool_ok (pool_run (NewBytePool bs ps) ops)"
    using pool_ok_New by (rule pool_ok_run)
  moreover have "bufSize (pool_run (NewBytePool bs ps) ops) = bs"
    by (simp add: bufSize_run NewBytePool_def)
  ultimately show "\<forall>b' \<in> set (pool (pool_run (NewBytePool bs ps) ops)). length b' = bs"
    by (simp add: pool_ok_def list_all_iff)
  show "bufSize bytePool0 = 4096"
    by (simp add: bytePool0_def NewBytePool_def)
qed

theorem BytePool_fixed_size_witness:
  "Put bytePool0 [1, 2, 3] = bytePool0
   \<and> Get bytePool0 = (make_bytes 4096, bytePool0)
   \<and> pool (pool_run (NewBytePool 2 8) [OpPut [1, 2, 3], OpPut [4, 5], OpGetAtLeast 9, OpPut [6, 7]])
       = [[4, 5], [6, 7]]
   \<and> list_all (\<lambda>b'. length b' = 2)
       (pool (pool_run (NewBytePool 2 8) [OpPut [1, 2, 3], OpPut [4, 5], OpGetAtLeast 9, OpPut [6, 7]]))"
proof -
  have run: "pool (pool_run (NewBytePool 2 8)
        [OpPut [1, 2, 3], OpPut [4, 5], OpGetAtLeast 9, OpPut [6, 7]]) = [[4, 5], [6, 7]]"
    by (simp add: pool_run_def NewBytePool_def Put_def GetAtLeast_def)
  have sz: "bufSize bytePool0 = 4096" "pool bytePool0 = []"
    by (simp_all add: bytePool0_def NewBytePool_def)
  show ?thesis
    using BytePool_fixed_size [of "[1, 2, 3]" bytePool0 2 8
        "[OpPut [1, 2, 3], OpPut [4, 5], OpGetAtLeast 9, OpPut [6, 7]]"]
    by (simp add: run sz)
qed

section \<open>Properties of the key derivation\<close>

text \<open>
  Claim C5. For every method name and password, \<open>toKey\<close> is a function of its inputs
  (equal method and password give equal keys), and the key is 16, 24 or 32 bytes long
  for \<open>aes-128-cfb\<close>, \<open>aes-192-cfb\<close> and \<open>aes-256-cfb\<close>, and 32 bytes long for every other
  method name.
\<close>

theorem toKey_length:
  "(method = method' \<and> password = password'
      \<longrightarrow> toKey Sum256 method password = toKey Sum256 method' password')
   \<and> length (toKey Sum256 ''aes-128-cfb'' password) = 16
   \<and> length (toKey Sum256 ''aes-192-cfb'' password) = 24
   \<and> length (toKey Sum256 ''aes-256-cfb'' password) = 32
   \<and> (method \<notin> {''aes-128-cfb'', ''aes-192-cfb'', ''aes-256-cfb''}
      \<longrightarrow> length (toKey Sum256 method password) = 32)"
  using Rep_digest [of "Sum256 (bytes_of_string password)"]
  by (simp add: toKey_def keyLenMap_def)

theorem toKey_length_witness:
  "toKey (\<lambda>m. Abs_digest (replicate 32 (of_nat (length m)))) ''rc4-md5'' ''pw''
     = replicate 32 2
   \<and> length (toKey (\<lambda>m. Abs_digest (replicate 32 (of_nat (length m)))) ''rc4-md5'' ''pw'') = 32"
  using toKey_length [of "''rc4-md5''" "''rc4-md5''" "''pw''" "''pw''"
      "\<lambda>m. Abs_digest (replicate 32 (of_nat (length m)))"]
  by (simp add: toKey_def keyLenMap_def bytes_of_string_def Abs_digest_inverse)

section \<open>Properties of the stream cipher\<close>

lemma length_copy [simp]: "length (copy dst src) = length dst"
  by (simp add: copy_def)

lemma copy_short: "length src \<le> length dst \<Longrightarrow> copy dst src = src @ drop (length src) dst"
  by (simp add: copy_def)

lemma length_xorBytes [simp]: "length (xorBytes xs ys) = min (length xs) (length ys)"
  by (simp add: xorBytes_def)

lemma xorBytes_append: "length xs \<ge> length ys \<Longrightarrow> xorBytes (xs @ zs) ys = xorBytes xs ys"
  by (simp add: xorBytes_def zip_append1)

lemma xorBytes_cancel: "xorBytes (xorBytes xs ys) ys = take (length ys) xs"
proof (induction xs arbitrary: ys)
  case Nil
  then show ?case by (simp add: xorBytes_def)
next
  case (Cons a xs)
  then show ?case by (cases ys) (simp_all add: xorBytes_def xor.assoc)
qed

lemma XORKeyStream_Nil: "XORKeyStream x [] = Inr ([], x)"
  by (subst XORKeyStream.simps) simp

text \<open>
  One encrypting stream and the decrypting stream in the same state: encrypting succeeds,
  keeps the length and the invariant, and decrypting the result gives the input back,
  with the two streams in the same state again.
\<close>

lemma XORKeyStream_roundtrip:
  "cfb_ok x \<Longrightarrow> \<not> cfb_decrypt x \<Longrightarrow>
   \<exists>ct x'. XORKeyStream x src = Inr (ct, x') \<and> length ct = length src
       \<and> cfb_ok x' \<and> \<not> cfb_decrypt x' \<and> cfb_b x' = cfb_b x
       \<and> XORKeyStream (x\<lparr>cfb_decrypt := True\<rparr>) ct = Inr (src, x'\<lparr>cfb_decrypt := True\<rparr>)"
proof (induction "length src" arbitrary: x src rule: less_induct)
  case less
  show ?case
  proof (cases "src = []")
    case True
    with less.prems show ?thesis by (simp add: XORKeyStream_Nil)
  next
    case False
    define ks where "ks = (if cfb_outUsed x = blockSize
        then copy (cfb_out x) (cfb_b x (cfb_next x)) else cfb_out x)"
    define u where "u = (if cfb_outUsed x = blockSize then 0 else cfb_outUsed x)"
    define d where "d = xorBytes src (drop u ks)"
    define n where "n = length d"
    define x4 where "x4 = x\<lparr>cfb_out := ks,
        cfb_next := take u (cfb_next x) @ d @ drop (u + n) (cfb_next x), cfb_outUsed := u + n\<rparr>"
    from less.prems have lens: "length (cfb_out x) = blockSize" "length (cfb_next x) = blockSize"
        "cfb_outUsed x \<le> blockSize"
      by (simp_all add: cfb_ok_def)
    have bs: "0 < blockSize" by (simp add: blockSize_def)
    have lks: "length ks = blockSize" using lens by (simp add: ks_def)
    have u_lt: "u < blockSize" using lens bs by (auto simp: u_def)
    have n_eq: "n = min (length src) (blockSize - u)" by (simp add: n_def d_def lks)
    have n_pos: "0 < n" using False u_lt by (simp add: n_eq)
    have ld: "length d = n" by (simp add: n_def)
    have ok4: "cfb_ok x4" using lens lks u_lt by (auto simp: cfb_ok_def x4_def ld n_eq)
    have nd4: "\<not> cfb_decrypt x4" using less.prems by (simp add: x4_def)
    have "length (drop n src) < length src" using False n_pos by simp
    from less.hyps [OF this ok4 nd4]
    obtain rest x' where
      r: "XORKeyStream x4 (drop n src) = Inr (rest, x')" "length rest = length (drop n src)"
         "cfb_ok x'" "\<not> cfb_decrypt x'" "cfb_b x' = cfb_b x4"
         "XORKeyStream (x4\<lparr>cfb_decrypt := True\<rparr>) rest = Inr (drop n src, x'\<lparr>cfb_decrypt := True\<rparr>)"
      by blast
    have cp: "copy (drop u (cfb_next x)) d = d @ drop (u + n) (cfb_next x)"
      using lens u_lt by (simp add: copy_short ld n_eq add.commute)
    have x1: "(if cfb_outUsed x = length (cfb_out x)
          then x\<lparr>cfb_out := copy (cfb_out x) (cfb_b x (cfb_next x)), cfb_outUsed := 0\<rparr>
          else x) = x\<lparr>cfb_out := ks, cfb_outUsed := u\<rparr>"
      using lens by (simp add: ks_def u_def)
    have enc: "XORKeyStream x src = Inr (d @ rest, x')"
      apply (subst XORKeyStream.simps)
      apply (simp only: x1 Let_def False if_False)
      using less.prems(2) lens u_lt lks r(1) cp
      apply (simp add: d_def [symmetric] ld x4_def)
      done
    have lct: "length (d @ rest) = length src" using r(2) ld n_eq by simp
    have split: "rest = [] \<or> n = blockSize - u"
      using r(2) n_eq by (cases "length src \<le> blockSize - u") auto
    have d_src: "xorBytes (d @ rest) (drop u ks) = take n src"
    proof -
      have "xorBytes (d @ rest) (drop u ks) = xorBytes d (drop u ks)"
        using split ld lks by (auto simp: xorBytes_append)
      also have "\<dots> = take (length (drop u ks)) src"
        by (simp add: d_def xorBytes_cancel)
      also have "\<dots> = take n src"
        using lks by (auto simp: n_eq min_def)
      finally show ?thesis .
    qed
    have cpd: "copy (drop u (cfb_next x)) (d @ rest) = d @ drop (u + n) (cfb_next x)"
      using split lens u_lt ld lct n_eq
      by (auto simp: copy_def add.commute)
    have x1d: "(if cfb_outUsed (x\<lparr>cfb_decrypt := True\<rparr>) = length (cfb_out (x\<lparr>cfb_decrypt := True\<rparr>))
          then x\<lparr>cfb_decrypt := True\<rparr>\<lparr>cfb_out := copy (cfb_out (x\<lparr>cfb_decrypt := True\<rparr>))
                  (cfb_b (x\<lparr>cfb_decrypt := True\<rparr>) (cfb_next (x\<lparr>cfb_decrypt := True\<rparr>))),
                cfb_outUsed := 0\<rparr>
          else x\<lparr>cfb_decrypt := True\<rparr>) = x\<lparr>cfb_decrypt := True, cfb_out := ks, cfb_outUsed := u\<rparr>"
      using lens by (simp add: ks_def u_def)
    have ne: "d @ rest \<noteq> []" using n_pos ld by auto
    have mn: "min (length src) n = n" by (simp add: n_eq)
    have st: "x\<lparr>cfb_decrypt := True, cfb_out := ks,
          cfb_next := take u (cfb_next x) @ d @ drop (u + n) (cfb_next x),
          cfb_outUsed := u + n\<rparr> = x4\<lparr>cfb_decrypt := True\<rparr>"
      by (simp add: x4_def)
    have dec: "XORKeyStream (x\<lparr>cfb_decrypt := True\<rparr>) (d @ rest)
        = Inr (src, x'\<lparr>cfb_decrypt := True\<rparr>)"
      apply (subst XORKeyStream.simps)
      apply (simp only: x1d Let_def ne if_False)
      using n_pos ld lens u_lt lks r(6) cpd d_src mn
      apply (simp add: st)
      done
    show ?thesis
      using enc dec r(3,4,5) lct by (simp add: x4_def)
  qed
qed

lemma toKey_len_cases:
  "length (toKey Sum256 method password) = 16 \<or> length (toKey Sum256 method password) = 24
   \<or> length (toKey Sum256 method password) = 32"
  using Rep_digest [of "Sum256 (bytes_of_string password)"]
  by (simp add: toKey_def keyLenMap_def)

lemma aes_NewCipher_toKey:
  "aes_NewCipher aes (toKey Sum256 method password) = Inr (aes (toKey Sum256 method password))"
  using toKey_len_cases by (auto simp: aes_NewCipher_def)

lemma newCFB_block:
  "length iv = blockSize \<Longrightarrow>
   newCFB block iv d = Inr \<lparr>cfb_b = block, cfb_next = iv, cfb_out = make_bytes blockSize,
      cfb_outUsed = blockSize, cfb_decrypt = d\<rparr>"
  by (simp add: newCFB_def copy_def make_bytes_def)

lemma ReadFull_chunk:
  "length d = length buf \<Longrightarrow> buf \<noteq> [] \<Longrightarrow>
   ReadFull ((d, None) # r) buf = ((length buf, None), d, r)"
  unfolding ReadFull_def ReadAtLeast_def
  apply (subst ReadAtLeast_from.simps)
  apply (simp add: copy_def)
  apply (subst ReadAtLeast_from.simps)
  apply simp
  done

lemma key_sample_cipher: "key sample_cipher = replicate 16 2"
  by (simp add: sample_cipher_def NewCipher_def toKey_def keyLenMap_def toy_Sum256_def
      bytes_of_string_def Abs_digest_inverse)

text \<open>
  Claim C6. For a \<open>Cipher\<close> whose key was derived by \<open>toKey\<close>, \<open>initDecrypt\<close> returns the
  invalid-IV-length error, and leaves the cipher as it was, for every \<open>iv\<close> whose length
  is not the block size 16; for an \<open>iv\<close> of 16 bytes it returns nil and sets \<open>dec\<close> to the
  CFB decrypter made from the key and that \<open>iv\<close>.
\<close>

theorem initDecrypt_iv_length:
  "key c = toKey Sum256 method password \<Longrightarrow>
     (length iv \<noteq> blockSize \<longrightarrow> initDecrypt aes c iv = Inr (Some (ErrInvalidIV (length iv)), c))
   \<and> (length iv = blockSize \<longrightarrow>
        initDecrypt aes c iv =
          Inr (None, c\<lparr>dec := Some \<lparr>cfb_b = aes (key c), cfb_next = iv,
                 cfb_out = make_bytes blockSize, cfb_outUsed = blockSize, cfb_decrypt = True\<rparr>\<rparr>))
   \<and> blockSize = 16"
  by (simp add: initDecrypt_def aes_NewCipher_toKey NewCFBDecrypter_def newCFB_block)
     (simp add: blockSize_def)

theorem initDecrypt_iv_length_witness:
  "key sample_cipher = toKey toy_Sum256 ''aes-128-cfb'' ''pw''
   \<and> initDecrypt toy_aes sample_cipher [] = Inr (Some (ErrInvalidIV 0), sample_cipher)
   \<and> initDecrypt toy_aes sample_cipher [9] = Inr (Some (ErrInvalidIV 1), sample_cipher)
   \<and> initDecrypt toy_aes sample_cipher (replicate 15 9) = Inr (Some (ErrInvalidIV 15), sample_cipher)
   \<and> initDecrypt toy_aes sample_cipher (replicate 17 9) = Inr (Some (ErrInvalidIV 17), sample_cipher)
   \<and> initDecrypt toy_aes sample_cipher (replicate 32 9) = Inr (Some (ErrInvalidIV 32), sample_cipher)
   \<and> length sample_iv = blockSize
   \<and> initDecrypt toy_aes sample_cipher sample_iv =
        Inr (None, sample_cipher\<lparr>dec := Some \<lparr>cfb_b = toy_aes (key sample_cipher),
               cfb_next = sample_iv, cfb_out = make_bytes blockSize, cfb_outUsed = blockSize,
               cfb_decrypt = True\<rparr>\<rparr>)"
proof -
  have k: "key sample_cipher = toKey toy_Sum256 ''aes-128-cfb'' ''pw''"
    by (simp add: sample_cipher_def NewCipher_def)
  have l: "length sample_iv = blockSize"
    by (simp add: sample_iv_def blockSize_def)
  note th = initDecrypt_iv_length [OF k, of _ toy_aes]
  show ?thesis
    using k l th [of "[]"] th [of "[9]"] th [of "replicate 15 9"] th [of "replicate 17 9"]
      th [of "replicate 32 9"] th [of sample_iv]
    by simp
qed

text \<open>
  Claim C7. For every plaintext \<open>P\<close>, every key derived by \<open>toKey\<close> and every \<open>iv\<close> of
  one block: when \<open>initEncrypt\<close> draws \<open>iv\<close> from the random source and \<open>initDecrypt\<close> is
  given the same \<open>iv\<close> under the same key, \<open>encrypt\<close> of \<open>P\<close> succeeds with a ciphertext
  as long as \<open>P\<close>, and \<open>decrypt\<close> of that ciphertext returns exactly \<open>P\<close>.
\<close>

theorem decrypt_encrypt:
  assumes iv: "length iv = blockSize"
    and k: "key c = toKey Sum256 method password" and k': "key c' = key c"
  shows "\<exists>ce ct ce' cd cd'.
      initEncrypt aes ((iv, None) # rnd) c = Inr ((iv, None), rnd, ce)
    \<and> encrypt ce P = Inr (ct, ce') \<and> length ct = length P
    \<and> initDecrypt aes c' iv = Inr (None, cd)
    \<and> decrypt cd ct = Inr (P, cd')"
proof -
  define s where "s = \<lparr>cfb_b = aes (key c), cfb_next = iv, cfb_out = make_bytes blockSize,
      cfb_outUsed = blockSize, cfb_decrypt = False\<rparr>"
  have ok: "cfb_ok s" "\<not> cfb_decrypt s"
    using iv by (simp_all add: cfb_ok_def s_def make_bytes_def)
  from XORKeyStream_roundtrip [OF ok, of P] obtain ct s' where
    x: "XORKeyStream s P = Inr (ct, s')" "length ct = length P"
       "XORKeyStream (s\<lparr>cfb_decrypt := True\<rparr>) ct = Inr (P, s'\<lparr>cfb_decrypt := True\<rparr>)"
    by blast
  have e: "initEncrypt aes ((iv, None) # rnd) c = Inr ((iv, None), rnd, c\<lparr>enc := Some s\<rparr>)"
    using iv by (simp add: initEncrypt_def k aes_NewCipher_toKey ReadFull_chunk make_bytes_def
        NewCFBEncrypter_def newCFB_block s_def blockSize_def)
  have d: "initDecrypt aes c' iv = Inr (None, c'\<lparr>dec := Some (s\<lparr>cfb_decrypt := True\<rparr>)\<rparr>)"
    using iv by (simp add: initDecrypt_def k k' aes_NewCipher_toKey
        NewCFBDecrypter_def newCFB_block s_def)
  have "encrypt (c\<lparr>enc := Some s\<rparr>) P = Inr (ct, c\<lparr>enc := Some s'\<rparr>)"
    by (simp add: encrypt_def x(1))
  moreover have "decrypt (c'\<lparr>dec := Some (s\<lparr>cfb_decrypt := True\<rparr>)\<rparr>) ct
      = Inr (P, c'\<lparr>dec := Some (s'\<lparr>cfb_decrypt := True\<rparr>)\<rparr>)"
    by (simp add: decrypt_def x(3))
  ultimately show ?thesis using e d x(2) by blast
qed

lemma sample_encrypt:
  "(case initEncrypt toy_aes [(sample_iv, None)] sample_cipher of
      Inl p \<Rightarrow> Inl p
    | Inr (r, _, ce) \<Rightarrow> (case encrypt ce sample_payload of
         Inl p \<Rightarrow> Inl p | Inr (ct, _) \<Rightarrow> Inr (r, ct)))
   = Inr ((sample_iv, None), sample_ciphertext)"
  by (simp add: initEncrypt_def key_sample_cipher aes_NewCipher_def ReadFull_chunk
      NewCFBEncrypter_def newCFB_def encrypt_def XORKeyStream.simps Let_def blockSize_def
      make_bytes_def sample_iv_def sample_payload_def sample_ciphertext_def toy_aes_def
      copy_def xorBytes_def)

lemma sample_decrypt:
  "(case initDecrypt toy_aes sample_cipher sample_iv of
      Inl p \<Rightarrow> Inl p
    | Inr (e, cd) \<Rightarrow> (case decrypt cd sample_ciphertext of
         Inl p \<Rightarrow> Inl p | Inr (pt, _) \<Rightarrow> Inr (e, pt)))
   = Inr (None, sample_payload)"
  by (simp add: initDecrypt_def key_sample_cipher aes_NewCipher_def
      NewCFBDecrypter_def newCFB_def decrypt_def XORKeyStream.simps Let_def blockSize_def
      make_bytes_def sample_iv_def sample_payload_def sample_ciphertext_def toy_aes_def
      copy_def xorBytes_def)

theorem decrypt_encrypt_witness:
  "length sample_iv = blockSize
   \<and> key sample_cipher = toKey toy_Sum256 ''aes-128-cfb'' ''pw''
   \<and> (\<exists>ce ct ce' cd cd'.
        initEncrypt toy_aes [(sample_iv, None)] sample_cipher = Inr ((sample_iv, None), [], ce)
      \<and> encrypt ce sample_payload = Inr (ct, ce') \<and> length ct = length sample_payload
      \<and> initDecrypt toy_aes sample_cipher sample_iv = Inr (None, cd)
      \<and> decrypt cd ct = Inr (sample_payload, cd'))
   \<and> (case initEncrypt toy_aes [(sample_iv, None)] sample_cipher of
        Inl p \<Rightarrow> Inl p
      | Inr (r, _, ce) \<Rightarrow> (case encrypt ce sample_payload of
           Inl p \<Rightarrow> Inl p | Inr (ct, _) \<Rightarrow> Inr (r, ct)))
     = Inr ((sample_iv, None), sample_ciphertext)
   \<and> (case initDecrypt toy_aes sample_cipher sample_iv of
        Inl p \<Rightarrow> Inl p
      | Inr (e, cd) \<Rightarrow> (case decrypt cd sample_ciphertext of
           Inl p \<Rightarrow> Inl p | Inr (pt, _) \<Rightarrow> Inr (e, pt)))
     = Inr (None, sample_payload)"
proof -
  have k: "key sample_cipher = toKey toy_Sum256 ''aes-128-cfb'' ''pw''"
    by (simp add: sample_cipher_def NewCipher_def)
  have l: "length sample_iv = blockSize"
    by (simp add: sample_iv_def blockSize_def)
  from decrypt_encrypt [OF l k refl, of toy_aes "[]" sample_payload] k l
    sample_encrypt sample_decrypt
  show ?thesis by blast
qed

section \<open>Properties of the readers\<close>

lemma length_make_bytes [simp]: "length (make_bytes n) = n"
  by (simp add: make_bytes_def)

lemma copy_nth: "i < length src \<Longrightarrow> length src \<le> length dst \<Longrightarrow> copy dst src ! i = src ! i"
  by (simp add: copy_def nth_append)

lemma take_copy:
  "k \<le> length src \<Longrightarrow> length src \<le> length dst \<Longrightarrow> take k (copy dst src) = take k src"
  by (simp add: copy_def)

lemma reader_Read_length: "reader_Read r p = (res, p', r') \<Longrightarrow> length p' = length p"
  by (cases r) (auto split: if_splits)

lemma reader_Read_count: "reader_Read r p = ((k, e), p', r') \<Longrightarrow> k \<le> length p"
  by (cases r) (auto split: if_splits)

lemma reader_Read_size: "reader_Read r p = (res, p', r') \<Longrightarrow> reader_size r' \<le> reader_size r"
  by (cases r) (auto simp: reader_size_def split: if_splits)

text \<open>What \<open>ReadAtLeast\<close> guarantees: the buffer keeps its length, the count stays within
  it, the bytes before the starting offset are untouched, and a nil error means that at
  least \<open>mn\<close> bytes were read.\<close>

lemma ReadAtLeast_from_props:
  "ReadAtLeast_from r buf mn n = ((k, e), buf', r') \<Longrightarrow> n \<le> length buf \<Longrightarrow>
     length buf' = length buf \<and> k \<le> length buf \<and> reader_size r' \<le> reader_size r
     \<and> (e = None \<longrightarrow> mn \<le> k) \<and> take n buf' = take n buf
     \<and> (mn \<le> length buf \<longrightarrow> n \<le> k)"
proof (induction r buf mn n arbitrary: k e buf' r' rule: ReadAtLeast_from.induct)
  case (1 r buf mn n)
  show ?case
  proof (cases "length buf < mn \<or> \<not> n < mn")
    case True
    with "1.prems" show ?thesis
      by (subst (asm) ReadAtLeast_from.simps) (auto split: if_splits)
  next
    case False
    obtain nn err p r1 where rd: "reader_Read r (drop n buf) = ((nn, err), p, r1)"
      by (metis prod_cases3 surj_pair)
    have lp: "length p = length buf - n" using reader_Read_length [OF rd] by simp
    have nn: "nn \<le> length buf - n" using reader_Read_count [OF rd] by simp
    have sz: "reader_size r1 \<le> reader_size r" using reader_Read_size [OF rd] .
    show ?thesis
    proof (cases err)
      case None
      with False rd "1.prems"(1)
      have rec: "ReadAtLeast_from r1 (take n buf @ p) mn (n + nn) = ((k, e), buf', r')"
        by (subst (asm) ReadAtLeast_from.simps) simp
      have "n + nn \<le> length (take n buf @ p)" using lp nn "1.prems"(2) by simp
      from "1.IH" [OF _ _ rd [symmetric] refl _ refl rec this] False None
      have "length buf' = length (take n buf @ p) \<and> k \<le> length (take n buf @ p)
          \<and> reader_size r' \<le> reader_size r1 \<and> (e = None \<longrightarrow> mn \<le> k)
          \<and> take (n + nn) buf' = take (n + nn) (take n buf @ p)
          \<and> (mn \<le> length (take n buf @ p) \<longrightarrow> n + nn \<le> k)"
        by simp
      then have ih: "length buf' = length buf" "k \<le> length buf" "reader_size r' \<le> reader_size r1"
          "e = None \<longrightarrow> mn \<le> k" "take (n + nn) buf' = take (n + nn) (take n buf @ p)"
          "mn \<le> length buf \<longrightarrow> n + nn \<le> k"
        using lp "1.prems"(2) by simp_all
      have "take n buf' = take n (take (n + nn) buf')" by simp
      also have "\<dots> = take n buf" using "1.prems"(2) by (simp add: ih(5))
      finally have "take n buf' = take n buf" .
      with ih sz show ?thesis by auto
    next
      case (Some a)
      with False rd "1.prems" lp nn sz show ?thesis
        by (subst (asm) ReadAtLeast_from.simps) (auto split: if_splits)
    qed
  qed
qed

lemma ReadAtLeast_chunk:
  "0 < mn \<Longrightarrow> mn \<le> length d \<Longrightarrow> length d \<le> length buf \<Longrightarrow>
   ReadAtLeast ((d, e) # r) buf mn = ((length d, None), copy buf d, r)"
  unfolding ReadAtLeast_def
  apply (subst ReadAtLeast_from.simps)
  apply (cases e)
   apply simp
   apply (subst ReadAtLeast_from.simps)
   apply (simp add: copy_def)
  apply simp
  done

lemma net_ReadAtLeast_props:
  assumes "net_ReadAtLeast t buf mn = ((k, e), buf', t')"
  shows "length buf' = length buf \<and> k \<le> length buf \<and> (e = None \<longrightarrow> mn \<le> k)
     \<and> tx t' = tx t \<and> tx_outcomes t' = tx_outcomes t
     \<and> reader_size (rx t') \<le> reader_size (rx t)"
proof -
  obtain r' where r: "ReadAtLeast_from (rx t) buf mn 0 = ((k, e), buf', r')"
    and t': "t' = t\<lparr>rx := r'\<rparr>"
    using assms by (auto simp: net_ReadAtLeast_def ReadAtLeast_def split: prod.splits)
  from ReadAtLeast_from_props [OF r] t' show ?thesis by simp
qed

lemma net_Write_ok:
  "net_Write t p = ((k, None), t') \<Longrightarrow> k = length p \<and> tx t' = tx t @ [p] \<and> rx t' = rx t"
  by (auto simp: net_Write_def split: list.splits option.splits)

section \<open>Properties of the SOCKS5 front end\<close>

lemma handsake_unfold:
  assumes rd: "net_ReadAtLeast t (make_bytes 258) 2 = ((n, None), buf, t1)"
  shows "handsake t =
     (if buf ! 0 \<noteq> 5 then (Some (ErrVersion (buf ! 0)), t1)
      else if n \<noteq> 2 + unat (buf ! 1) then (Some ErrHeader, t1)
      else (snd (fst (net_Write t1 [5, 0])), snd (net_Write t1 [5, 0])))"
proof -
  obtain k e t2 where w: "net_Write t1 [5, 0] = ((k, e), t2)"
    by (metis prod.exhaust)
  show ?thesis
    by (cases e) (simp_all add: handsake_def rd w socksVer5_def Let_def)
qed

lemma greeting0_read:
  "net_ReadAtLeast greeting0 (make_bytes 258) 2
     = ((4, None), copy (make_bytes 258) [5, 2, 0, 1], greeting0\<lparr>rx := []\<rparr>)"
  by (simp add: net_ReadAtLeast_def greeting0_def ReadAtLeast_chunk)

lemma greeting0_handsake:
  "handsake greeting0 = (None, \<lparr>rx = [], tx_outcomes = [], tx = [[5, 0]]\<rparr>)"
  by (simp add: handsake_unfold [OF greeting0_read] copy_nth)
     (simp add: net_Write_def greeting0_def)

text \<open>
  Claim C8. Let \<open>handsake\<close>'s \<open>ReadAtLeast\<close> have read \<open>n\<close> bytes (at least 2, at most
  258) into \<open>buf\<close>. If byte 0 is not 5 the handshake fails with the version error; if it
  is 5 and \<open>n\<close> is not 2 plus the method count in byte 1, it fails with the
  malformed-header error; otherwise its result is that of writing the two bytes 5, 0.
  Whenever the handshake returns nil, both checks passed and exactly the buffer 5, 0 was
  written to the connection. The greeting 5, 2, 0, 1 succeeds with the reply 5, 0.
\<close>

theorem handsake_greeting:
  "net_ReadAtLeast t (make_bytes 258) 2 = ((n, None), buf, t1) \<Longrightarrow>
     2 \<le> n \<and> n \<le> 258
   \<and> (buf ! 0 \<noteq> 5 \<longrightarrow> handsake t = (Some (ErrVersion (buf ! 0)), t1))
   \<and> (buf ! 0 = 5 \<and> n \<noteq> 2 + unat (buf ! 1) \<longrightarrow> handsake t = (Some ErrHeader, t1))
   \<and> (buf ! 0 = 5 \<and> n = 2 + unat (buf ! 1) \<longrightarrow>
        handsake t = (snd (fst (net_Write t1 [5, 0])), snd (net_Write t1 [5, 0])))
   \<and> (\<forall>t'. handsake t = (None, t') \<longrightarrow>
        buf ! 0 = 5 \<and> n = 2 + unat (buf ! 1) \<and> tx t' = tx t @ [[5, 0]])"
proof -
  assume rd: "net_ReadAtLeast t (make_bytes 258) 2 = ((n, None), buf, t1)"
  note h = handsake_unfold [OF rd]
  have n: "2 \<le> n \<and> n \<le> 258" and tx1: "tx t1 = tx t"
    using net_ReadAtLeast_props [OF rd] by simp_all
  have last: "buf ! 0 = 5 \<and> n = 2 + unat (buf ! 1) \<and> tx t' = tx t @ [[5, 0]]"
    if ok: "handsake t = (None, t')" for t'
  proof -
    from ok h have c: "buf ! 0 = 5" "n = 2 + unat (buf ! 1)"
      by (auto split: if_splits)
    with ok h have "net_Write t1 [5, 0] = ((fst (fst (net_Write t1 [5, 0])), None), t')"
      by (simp add: prod_eq_iff)
    from net_Write_ok [OF this] tx1 c show ?thesis by simp
  qed
  have a: "buf ! 0 \<noteq> 5 \<longrightarrow> handsake t = (Some (ErrVersion (buf ! 0)), t1)"
    by (simp add: h)
  have b: "buf ! 0 = 5 \<and> n \<noteq> 2 + unat (buf ! 1) \<longrightarrow> handsake t = (Some ErrHeader, t1)"
    by (simp add: h)
  have c: "buf ! 0 = 5 \<and> n = 2 + unat (buf ! 1) \<longrightarrow>
        handsake t = (snd (fst (net_Write t1 [5, 0])), snd (net_Write t1 [5, 0]))"
    by (simp add: h)
  from n a b c last show ?thesis by blast
qed

theorem handsake_greeting_witness:
  "net_ReadAtLeast greeting0 (make_bytes 258) 2
     = ((4, None), copy (make_bytes 258) [5, 2, 0, 1], greeting0\<lparr>rx := []\<rparr>)
   \<and> handsake greeting0 = (None, \<lparr>rx = [], tx_outcomes = [], tx = [[5, 0]]\<rparr>)
   \<and> tx (snd (handsake greeting0)) = tx greeting0 @ [[5, 0]]"
proof -
  from handsake_greeting [OF greeting0_read] greeting0_handsake
  have "tx \<lparr>rx = [], tx_outcomes = [], tx = [[5, 0]]\<rparr> = tx greeting0 @ [[5, 0]]"
    by blast
  with greeting0_read greeting0_handsake show ?thesis by simp
qed

lemma readRawAddr_unfold:
  assumes rd: "net_ReadAtLeast t (make_bytes 262) 5 = ((n, None), buf, t1)"
  shows "readRawAddr t =
     (if buf ! 0 \<noteq> 5 then (([], Some (ErrVersion (buf ! 0))), t1)
      else if buf ! 1 \<noteq> 1 then (([], Some ErrCommand), t1)
      else if buf ! 3 = 1 then
        (if n = 4 + 4 + 2 then ((drop 3 (take n buf), None), t1) else (([], Some ErrHeader), t1))
      else if buf ! 3 = 4 then
        (if n = 4 + 16 + 2 then ((drop 3 (take n buf), None), t1) else (([], Some ErrHeader), t1))
      else if buf ! 3 = 3 then
        (if n = 4 + 1 + 2 + unat (buf ! 4) then ((drop 3 (take n buf), None), t1)
         else (([], Some ErrHeader), t1))
      else (([], Some ErrAddrType), t1))"
  by (simp add: readRawAddr_def rd socksVer5_def cmdConnect_def typeIPv4_def typeIPv6_def
      typeDomain_def IPv4len_def IPv6len_def drop_take)

lemma request0_read:
  "net_ReadAtLeast request0 (make_bytes 262) 5
     = ((10, None), copy (make_bytes 262) [0x05, 0x01, 0x00, 0x01, 127, 0, 0, 1, 0x1F, 0x90],
        request0\<lparr>rx := []\<rparr>)"
  by (simp add: net_ReadAtLeast_def request0_def ReadAtLeast_chunk)

lemma request0_parse:
  "readRawAddr request0 = (([0x01, 127, 0, 0, 1, 0x1F, 0x90], None), request0\<lparr>rx := []\<rparr>)"
  by (simp add: readRawAddr_unfold [OF request0_read] copy_nth take_copy)

lemma request_v4_read:
  "net_ReadAtLeast request_v4 (make_bytes 262) 5
     = ((10, None), copy (make_bytes 262) [0x04, 0x02, 0x00, 0x01, 127, 0, 0, 1, 0x1F, 0x90],
        request_v4\<lparr>rx := []\<rparr>)"
  by (simp add: net_ReadAtLeast_def request_v4_def ReadAtLeast_chunk)

lemma request_v4_short_read:
  "net_ReadAtLeast request_v4_short (make_bytes 262) 5
     = ((5, None), copy (make_bytes 262) [0x04, 0x02, 0x00, 0x09, 1], request_v4_short\<lparr>rx := []\<rparr>)"
  by (simp add: net_ReadAtLeast_def request_v4_short_def ReadAtLeast_chunk)

text \<open>
  Claim C3, as stated, for every request read: a request whose command byte is not
  CONNECT fails with the unsupported-command error. The request 4, 2, 0, 1, 127, 0, 0, 1,
  0x1F, 0x90 is read whole (10 bytes), its command byte is 2, and \<open>readRawAddr\<close> fails
  with the version error instead.
\<close>

theorem readRawAddr_request_counterexample:
  "fst (net_ReadAtLeast request_v4 (make_bytes 262) 5) = (10, None)
   \<and> fst (snd (net_ReadAtLeast request_v4 (make_bytes 262) 5)) ! 1 = 2
   \<and> fst (readRawAddr request_v4) = ([], Some (ErrVersion 4))
   \<and> fst (readRawAddr request_v4) \<noteq> ([], Some ErrCommand)"
  by (simp add: readRawAddr_unfold [OF request_v4_read] request_v4_read copy_nth)

text \<open>
  Claim C3, amended. Let \<open>readRawAddr\<close>'s \<open>ReadAtLeast\<close> have read \<open>n\<close> bytes (at least
  5, at most 262) into \<open>buf\<close>, with version byte 5. If the command byte is not 1
  (CONNECT) the result is the unsupported-command error; else if the address type is
  none of 1, 3, 4 it is the unsupported-address-type error; else \<open>n\<close> must be 4+4+2 for
  type 1, 4+16+2 for type 4 and 4+1+2+N for type 3, with N the byte at offset 4, or
  the result is the malformed-header error; on success the address returned is the
  bytes read from offset 3 to the end. The request 5, 1, 0, 1, 127, 0, 0, 1, 0x1F, 0x90
  parses to 1, 127, 0, 0, 1, 0x1F, 0x90.
\<close>

theorem readRawAddr_request:
  assumes rd: "net_ReadAtLeast t (make_bytes 262) 5 = ((n, None), buf, t1)"
    and v: "buf ! 0 = 5"
  shows "5 \<le> n \<and> n \<le> 262
   \<and> (buf ! 1 \<noteq> 1 \<longrightarrow> readRawAddr t = (([], Some ErrCommand), t1))
   \<and> (buf ! 1 = 1 \<and> buf ! 3 \<notin> {1, 3, 4} \<longrightarrow> readRawAddr t = (([], Some ErrAddrType), t1))
   \<and> (buf ! 1 = 1 \<and> buf ! 3 = 1 \<longrightarrow>
        readRawAddr t = (if n = 4 + 4 + 2 then ((drop 3 (take n buf), None), t1)
                         else (([], Some ErrHeader), t1)))
   \<and> (buf ! 1 = 1 \<and> buf ! 3 = 4 \<longrightarrow>
        readRawAddr t = (if n = 4 + 16 + 2 then ((drop 3 (take n buf), None), t1)
                         else (([], Some ErrHeader), t1)))
   \<and> (buf ! 1 = 1 \<and> buf ! 3 = 3 \<longrightarrow>
        readRawAddr t = (if n = 4 + 1 + 2 + unat (buf ! 4) then ((drop 3 (take n buf), None), t1)
                         else (([], Some ErrHeader), t1)))"
  using net_ReadAtLeast_props [OF rd]
  by (simp add: readRawAddr_unfold [OF rd] v)

theorem readRawAddr_request_witness:
  "net_ReadAtLeast request0 (make_bytes 262) 5
     = ((10, None), copy (make_bytes 262) [0x05, 0x01, 0x00, 0x01, 127, 0, 0, 1, 0x1F, 0x90],
        request0\<lparr>rx := []\<rparr>)
   \<and> copy (make_bytes 262) [0x05, 0x01, 0x00, 0x01, 127, 0, 0, 1, 0x1F, 0x90] ! 0 = 5
   \<and> readRawAddr request0 = (([0x01, 127, 0, 0, 1, 0x1F, 0x90], None), request0\<lparr>rx := []\<rparr>)"
proof -
  have v: "copy (make_bytes 262) [0x05, 0x01, 0x00, 0x01, 127, 0, 0, 1, 0x1F, 0x90] ! 0 = 5"
    by (simp add: copy_nth)
  from readRawAddr_request [OF request0_read v] request0_read v request0_parse
  show ?thesis by blast
qed

text \<open>
  Claim C10. Let \<open>readRawAddr\<close>'s \<open>ReadAtLeast\<close> have read \<open>n\<close> bytes into \<open>buf\<close>. If byte
  0 is not 5 the result is the version error carrying that byte, whatever the command
  byte, the address type and the number of bytes read are.
\<close>

theorem readRawAddr_version:
  assumes rd: "net_ReadAtLeast t (make_bytes 262) 5 = ((n, None), buf, t1)"
    and v: "buf ! 0 \<noteq> 5"
  shows "readRawAddr t = (([], Some (ErrVersion (buf ! 0))), t1)"
  by (simp add: readRawAddr_unfold [OF rd] v)

theorem readRawAddr_version_witness:
  "net_ReadAtLeast request_v4_short (make_bytes 262) 5
     = ((5, None), copy (make_bytes 262) [0x04, 0x02, 0x00, 0x09, 1], request_v4_short\<lparr>rx := []\<rparr>)
   \<and> copy (make_bytes 262) [0x04, 0x02, 0x00, 0x09, 1] ! 0 \<noteq> 5
   \<and> copy (make_bytes 262) [0x04, 0x02, 0x00, 0x09, 1] ! 0 = 4
   \<and> readRawAddr request_v4_short
       = (([], Some (ErrVersion (copy (make_bytes 262) [0x04, 0x02, 0x00, 0x09, 1] ! 0))),
          request_v4_short\<lparr>rx := []\<rparr>)"
proof -
  have v: "copy (make_bytes 262) [0x04, 0x02, 0x00, 0x09, 1] ! 0 = 4"
    by (simp add: copy_nth)
  then have v': "copy (make_bytes 262) [0x04, 0x02, 0x00, 0x09, 1] ! 0 \<noteq> 5"
    by simp
  from readRawAddr_version [OF request_v4_short_read v'] request_v4_short_read v v'
  show ?thesis by blast
qed

section \<open>Properties of the encrypted connection\<close>

lemma XORKeyStream_ok:
  "cfb_ok x \<Longrightarrow>
   \<exists>dst x'. XORKeyStream x src = Inr (dst, x') \<and> length dst = length src
       \<and> cfb_ok x' \<and> cfb_decrypt x' = cfb_decrypt x \<and> cfb_b x' = cfb_b x"
proof (induction "length src" arbitrary: x src rule: less_induct)
  case less
  show ?case
  proof (cases "src = []")
    case True
    with less.prems show ?thesis by (simp add: XORKeyStream_Nil)
  next
    case False
    define ks where "ks = (if cfb_outUsed x = blockSize
        then copy (cfb_out x) (cfb_b x (cfb_next x)) else cfb_out x)"
    define u where "u = (if cfb_outUsed x = blockSize then 0 else cfb_outUsed x)"
    define d where "d = xorBytes src (drop u ks)"
    define n where "n = length d"
    define fb where "fb = (if cfb_decrypt x then src else d)"
    define x4 where "x4 = x\<lparr>cfb_out := ks,
        cfb_next := take u (cfb_next x) @ copy (drop u (cfb_next x)) fb, cfb_outUsed := u + n\<rparr>"
    from less.prems have lens: "length (cfb_out x) = blockSize" "length (cfb_next x) = blockSize"
        "cfb_outUsed x \<le> blockSize"
      by (simp_all add: cfb_ok_def)
    have bs: "0 < blockSize" by (simp add: blockSize_def)
    have lks: "length ks = blockSize" using lens by (simp add: ks_def)
    have u_lt: "u < blockSize" using lens bs by (auto simp: u_def)
    have n_eq: "n = min (length src) (blockSize - u)" by (simp add: n_def d_def lks)
    have n_pos: "0 < n" using False u_lt by (simp add: n_eq)
    have ld: "length d = n" by (simp add: n_def)
    have ok4: "cfb_ok x4" using lens lks u_lt by (auto simp: cfb_ok_def x4_def ld n_eq)
    have "length (drop n src) < length src" using False n_pos by simp
    from less.hyps [OF this ok4]
    obtain rest x' where
      r: "XORKeyStream x4 (drop n src) = Inr (rest, x')" "length rest = length (drop n src)"
         "cfb_ok x'" "cfb_decrypt x' = cfb_decrypt x4" "cfb_b x' = cfb_b x4"
      by blast
    have x1: "(if cfb_outUsed x = length (cfb_out x)
          then x\<lparr>cfb_out := copy (cfb_out x) (cfb_b x (cfb_next x)), cfb_outUsed := 0\<rparr>
          else x) = x\<lparr>cfb_out := ks, cfb_outUsed := u\<rparr>"
      using lens by (simp add: ks_def u_def)
    have r1: "XORKeyStream (x\<lparr>cfb_out := ks,
        cfb_next := take u (cfb_next x) @ copy (drop u (cfb_next x)) fb, cfb_outUsed := u + n\<rparr>)
        (drop n src) = Inr (rest, x')"
      using r(1) by (simp add: x4_def)
    have enc: "XORKeyStream x src = Inr (d @ rest, x')"
    proof (cases "cfb_decrypt x")
      case True
      then have fb: "fb = src" by (simp add: fb_def)
      show ?thesis
        apply (subst XORKeyStream.simps)
        apply (simp only: x1 Let_def False if_False)
        using lens u_lt lks r1 True
        apply (simp add: d_def [symmetric] ld fb)
        done
    next
      case nd: False
      then have fb: "fb = d" by (simp add: fb_def)
      show ?thesis
        apply (subst XORKeyStream.simps)
        apply (simp only: x1 Let_def False if_False)
        using lens u_lt lks r1 nd
        apply (simp add: d_def [symmetric] ld fb)
        done
    qed
    show ?thesis
      using enc r(2,3,4,5) ld n_eq by (simp add: x4_def)
  qed
qed


lemma reader_Read_buffer:
  "length q = length p \<Longrightarrow> reader_Read r p = ((n, e), p', r') \<Longrightarrow>
   reader_Read r q = ((n, e), take n p' @ drop n q, r') \<and> n \<le> length p"
  by (cases r) (auto simp: copy_def split: if_splits)

lemma net_Read_buffer:
  "length q = length p \<Longrightarrow> net_Read t p = ((n, e), p', t') \<Longrightarrow>
   net_Read t q = ((n, e), take n p' @ drop n q, t') \<and> n \<le> length p"
  using reader_Read_buffer [of q p "rx t" n e p']
  by (auto simp: net_Read_def split: prod.splits)

lemma GetAtLeast_length:
  "pool_ok bp \<Longrightarrow> GetAtLeast bp k = (buf, bp1) \<Longrightarrow>
   k \<le> length buf \<and> pool_ok bp1"
  by (auto simp: GetAtLeast_def Get_def pool_ok_def split: if_splits list.splits)

lemma net_ReadFull_ok:
  "net_ReadFull t buf = ((k, None), buf', t') \<Longrightarrow> k = length buf \<and> length buf' = length buf"
  using net_ReadAtLeast_props [of t buf "length buf" k None buf' t']
  by (simp add: net_ReadFull_def)

lemma newCFB_ok: "newCFB block iv d = Inr s \<Longrightarrow> cfb_ok s \<and> cfb_decrypt s = d \<and> cfb_b s = block"
  by (auto simp: newCFB_def cfb_ok_def split: if_splits)

lemma initDecrypt_ok:
  "initDecrypt aes ci iv = Inr (None, ci') \<Longrightarrow>
   \<exists>s. dec ci' = Some s \<and> cfb_ok s \<and> cfb_decrypt s
      \<and> NewCFBDecrypter (aes (key ci)) iv = Inr s \<and> ci' = ci\<lparr>dec := Some s\<rparr>"
  by (auto simp: initDecrypt_def aes_NewCipher_def NewCFBDecrypter_def
      dest: newCFB_ok split: sum.splits if_splits)

lemma decrypt_ok:
  assumes "dec ci = Some s" "cfb_ok s"
  shows "\<exists>plain s'. decrypt ci src = Inr (plain, ci\<lparr>dec := Some s'\<rparr>) \<and> length plain = length src
     \<and> cfb_ok s' \<and> XORKeyStream s src = Inr (plain, s')"
  using XORKeyStream_ok [OF assms(2), of src] assms(1)
  by (auto simp: decrypt_def)

lemma Conn_Read_ready:
  assumes d: "dec (cipher c) = Some s" and ok: "cfb_ok s" and p: "pool_ok bp"
    and rd: "net_Read (conn c) b = ((n, err), raw, t2)"
  shows "n \<le> length b \<and>
    (\<exists>plain ci' bp' s'. decrypt (cipher c) (take n raw) = Inr (plain, ci') \<and> length plain = n
        \<and> dec ci' = Some s' \<and> cfb_ok s' \<and> pool_ok bp'
        \<and> Conn_Read aes bp c b
            = Inr ((n, err), plain @ drop n b, bp', c\<lparr>conn := t2, cipher := ci'\<rparr>))"
proof -
  obtain buf bp1 where g: "GetAtLeast bp (length b) = (buf, bp1)" by (cases "GetAtLeast bp (length b)")
  from GetAtLeast_length [OF p g] have lb: "length b \<le> length buf" and p1: "pool_ok bp1" by simp_all
  define q where "q = take (length b) buf"
  have lq: "length q = length b" using lb by (simp add: q_def)
  define eb where "eb = take n raw @ drop n q"
  from net_Read_buffer [OF lq rd]
  have rq: "net_Read (conn c) q = ((n, err), eb, t2)" and nb: "n \<le> length b"
    by (simp_all add: eb_def)
  have lraw: "length raw = length b"
    using rd reader_Read_length by (auto simp: net_Read_def split: prod.splits)
  have tk: "take n eb = take n raw" using nb lraw by (simp add: eb_def)
  define bp2 where "bp2 = Put bp1 (copy buf eb)"
  have p2: "pool_ok bp2" unfolding bp2_def using p1 by (rule pool_ok_Put)
  from decrypt_ok [OF d ok, of "take n raw"] obtain plain s' where
    dc: "decrypt (cipher c) (take n raw) = Inr (plain, (cipher c)\<lparr>dec := Some s'\<rparr>)"
    and lp: "length plain = n" and ok': "cfb_ok s'"
    and xs: "XORKeyStream s (take n raw) = Inr (plain, s')"
    using nb lraw by auto
  have cp: "copy b plain = plain @ drop n b" using lp nb by (simp add: copy_def)
  have res: "Conn_Read aes bp c b
      = Inr ((n, err), plain @ drop n b, bp2, c\<lparr>conn := t2, cipher := (cipher c)\<lparr>dec := Some s'\<rparr>\<rparr>)"
  proof (cases "n = 0")
    case True
    then have "plain = []" "s' = s" using xs lp by (simp_all add: XORKeyStream_Nil)
    moreover have "(cipher c)\<lparr>dec := Some s\<rparr> = cipher c" using d by (cases "cipher c") simp
    ultimately show ?thesis
      using d g lb rq True
      by (simp add: Conn_Read_def q_def [symmetric] Let_def bp2_def)
  next
    case False
    then show ?thesis
      using d g lb rq dc cp
      by (simp add: Conn_Read_def q_def [symmetric] Let_def bp2_def tk)
  qed
  show ?thesis using nb dc lp ok' p2 res by auto
qed


lemma Conn_Read_iv_fail:
  assumes "dec (cipher c) = None"
    and "net_ReadFull (conn c) (make_bytes blockSize) = ((k, Some err), ivbuf, t')"
  shows "Conn_Read aes bp c b = Inr ((0, Some err), b, bp, c\<lparr>conn := t'\<rparr>)"
  using assms by (simp add: Conn_Read_def)

lemma Conn_Read_init_fail:
  assumes "dec (cipher c) = None"
    and "net_ReadFull (conn c) (make_bytes blockSize) = ((k, None), iv, t')"
    and "initDecrypt aes (cipher c) iv = Inr (Some e, ci)"
  shows "Conn_Read aes bp c b = Inr ((0, Some e), b, bp, c\<lparr>conn := t', cipher := ci\<rparr>)"
  using assms by (simp add: Conn_Read_def)

lemma Conn_Read_init_ok:
  assumes "dec (cipher c) = None"
    and "net_ReadFull (conn c) (make_bytes blockSize) = ((k, None), iv, t')"
    and i: "initDecrypt aes (cipher c) iv = Inr (None, ci)"
  shows "Conn_Read aes bp c b = Conn_Read aes bp (c\<lparr>conn := t', cipher := ci\<rparr>) b"
proof -
  from initDecrypt_ok [OF i] obtain s where "dec ci = Some s" by blast
  with assms show ?thesis by (simp add: Conn_Read_def)
qed

lemma dec_sample: "dec sample_cipher = None" "enc sample_cipher = None"
  by (simp_all add: sample_cipher_def NewCipher_def)


lemma sample_stream_ok: "cfb_ok (sample_stream d)"
  by (simp add: cfb_ok_def sample_stream_def sample_iv_def blockSize_def)

lemma conn_ready_fields:
  "dec (cipher conn_ready) = Some (sample_stream True)"
  "enc (cipher conn_ready) = Some (sample_stream False)"
  "conn conn_ready = \<lparr>rx = [(sample_ciphertext, None)], tx_outcomes = [], tx = []\<rparr>"
  by (simp_all add: conn_ready_def NewConn_def)

lemma conn_cut_iv:
  "net_ReadFull (conn conn_cut) (make_bytes blockSize)
     = ((3, Some ErrUnexpectedEOF), [1, 2, 3] @ replicate 13 0, \<lparr>rx = [], tx_outcomes = [], tx = []\<rparr>)"
  by (simp add: conn_cut_def NewConn_def net_ReadFull_def net_ReadAtLeast_def ReadAtLeast_def
      ReadAtLeast_from.simps blockSize_def make_bytes_def copy_def)

lemma conn_in_read:
  "read_view (Conn_Read toy_aes small_pool conn_in (replicate 20 0xAA))
     = Inr ((18, None), sample_payload @ replicate 2 0xAA,
            [sample_ciphertext @ replicate 46 0], [])"
  by (simp add: read_view_def Conn_Read_def conn_in_def NewConn_def net_ReadFull_def
      net_ReadAtLeast_def ReadAtLeast_chunk blockSize_def dec_sample sample_iv_def
      initDecrypt_def key_sample_cipher aes_NewCipher_def NewCFBDecrypter_def newCFB_def
      small_pool_def NewBytePool_def GetAtLeast_def Get_def Put_def net_Read_def
      sample_ciphertext_def sample_payload_def decrypt_def XORKeyStream.simps Let_def
      toy_aes_def xorBytes_def copy_def make_bytes_def replicate_add [symmetric])


lemma conn_ready_net_Read:
  "net_Read (conn conn_ready) (replicate 20 0xAA)
     = ((18, None), sample_ciphertext @ replicate 2 0xAA, \<lparr>rx = [], tx_outcomes = [], tx = []\<rparr>)"
  by (simp add: conn_ready_fields net_Read_def sample_ciphertext_def copy_def)

lemma conn_ready_read:
  "read_view (Conn_Read toy_aes small_pool conn_ready (replicate 20 0xAA))
     = Inr ((18, None), sample_payload @ replicate 2 0xAA,
            [sample_ciphertext @ replicate 46 0], [])"
  by (simp add: read_view_def Conn_Read_def conn_ready_fields sample_stream_def
      key_sample_cipher blockSize_def sample_iv_def
      small_pool_def NewBytePool_def GetAtLeast_def Get_def Put_def net_Read_def
      sample_ciphertext_def sample_payload_def decrypt_def XORKeyStream.simps Let_def
      toy_aes_def xorBytes_def copy_def make_bytes_def replicate_add [symmetric])

text \<open>
  Claim C2. While \<open>dec\<close> is nil, \<open>Read\<close> first reads the IV with \<open>ReadFull\<close> into a
  buffer of \<open>blockSize\<close> = 16 bytes. If that fails, or if \<open>initDecrypt\<close> then fails, \<open>Read\<close>
  returns 0 and that error, and the caller's buffer and the pool are as before. If both
  succeed, exactly 16 bytes were read, \<open>dec\<close> is the CFB decrypter of the key and that
  IV, and \<open>Read\<close> goes on as on a connection whose \<open>dec\<close> is set. There (for a
  well-formed stream and pool) it returns the very count \<open>n\<close> and error that one \<open>Read\<close> of
  the transport into a buffer of \<open>len(b)\<close> bytes returns, \<open>n\<close> is at most \<open>len(b)\<close>, the first
  \<open>n\<close> bytes of \<open>b\<close> are the decryption of the \<open>n\<close> bytes read, and the rest of \<open>b\<close> is as
  before.
\<close>

theorem Conn_Read_spec:
  "(dec (cipher c) = None
      \<and> net_ReadFull (conn c) (make_bytes blockSize) = ((k, Some err), ivbuf, t')
    \<longrightarrow> Conn_Read aes bp c b = Inr ((0, Some err), b, bp, c\<lparr>conn := t'\<rparr>))
   \<and> (dec (cipher c) = None
      \<and> net_ReadFull (conn c) (make_bytes blockSize) = ((k, None), iv, t')
    \<longrightarrow> k = blockSize \<and> length iv = blockSize \<and> blockSize = 16
      \<and> (\<forall>e ci. initDecrypt aes (cipher c) iv = Inr (Some e, ci)
            \<longrightarrow> Conn_Read aes bp c b = Inr ((0, Some e), b, bp, c\<lparr>conn := t', cipher := ci\<rparr>))
      \<and> (\<forall>ci. initDecrypt aes (cipher c) iv = Inr (None, ci)
            \<longrightarrow> (\<exists>s. dec ci = Some s \<and> cfb_ok s
                    \<and> NewCFBDecrypter (aes (key (cipher c))) iv = Inr s)
              \<and> Conn_Read aes bp c b = Conn_Read aes bp (c\<lparr>conn := t', cipher := ci\<rparr>) b))
   \<and> (dec (cipher c) = Some s \<and> cfb_ok s \<and> pool_ok bp
      \<and> net_Read (conn c) b = ((n, err'), raw, t2)
    \<longrightarrow> n \<le> length b
      \<and> (\<exists>plain ci' bp' s'.
            decrypt (cipher c) (take n raw) = Inr (plain, ci') \<and> length plain = n
          \<and> dec ci' = Some s' \<and> cfb_ok s' \<and> pool_ok bp'
          \<and> Conn_Read aes bp c b
              = Inr ((n, err'), plain @ drop n b, bp', c\<lparr>conn := t2, cipher := ci'\<rparr>)))"
proof (intro conjI impI)
  assume "dec (cipher c) = None
      \<and> net_ReadFull (conn c) (make_bytes blockSize) = ((k, Some err), ivbuf, t')"
  then show "Conn_Read aes bp c b = Inr ((0, Some err), b, bp, c\<lparr>conn := t'\<rparr>)"
    by (simp add: Conn_Read_iv_fail)
next
  assume a: "dec (cipher c) = None
      \<and> net_ReadFull (conn c) (make_bytes blockSize) = ((k, None), iv, t')"
  then have d: "dec (cipher c) = None"
    and r: "net_ReadFull (conn c) (make_bytes blockSize) = ((k, None), iv, t')"
    by simp_all
  from net_ReadFull_ok [OF r] show "k = blockSize" "length iv = blockSize" by simp_all
  show "blockSize = 16" by (simp add: blockSize_def)
  show "\<forall>e ci. initDecrypt aes (cipher c) iv = Inr (Some e, ci)
            \<longrightarrow> Conn_Read aes bp c b = Inr ((0, Some e), b, bp, c\<lparr>conn := t', cipher := ci\<rparr>)"
    using Conn_Read_init_fail [OF d r] by blast
  show "\<forall>ci. initDecrypt aes (cipher c) iv = Inr (None, ci)
            \<longrightarrow> (\<exists>s. dec ci = Some s \<and> cfb_ok s
                    \<and> NewCFBDecrypter (aes (key (cipher c))) iv = Inr s)
              \<and> Conn_Read aes bp c b = Conn_Read aes bp (c\<lparr>conn := t', cipher := ci\<rparr>) b"
    using Conn_Read_init_ok [OF d r] initDecrypt_ok by blast
next
  assume a: "dec (cipher c) = Some s \<and> cfb_ok s \<and> pool_ok bp
      \<and> net_Read (conn c) b = ((n, err'), raw, t2)"
  then have 1: "dec (cipher c) = Some s" and 2: "cfb_ok s" and 3: "pool_ok bp"
    and 4: "net_Read (conn c) b = ((n, err'), raw, t2)" by simp_all
  from Conn_Read_ready [OF 1 2 3 4, of aes]
  show "n \<le> length b" and "\<exists>plain ci' bp' s'.
            decrypt (cipher c) (take n raw) = Inr (plain, ci') \<and> length plain = n
          \<and> dec ci' = Some s' \<and> cfb_ok s' \<and> pool_ok bp'
          \<and> Conn_Read aes bp c b
              = Inr ((n, err'), plain @ drop n b, bp', c\<lparr>conn := t2, cipher := ci'\<rparr>)"
    by simp_all
qed


theorem Conn_Read_spec_witness:
  "dec (cipher conn_cut) = None
   \<and> net_ReadFull (conn conn_cut) (make_bytes blockSize)
       = ((3, Some ErrUnexpectedEOF), [1, 2, 3] @ replicate 13 0,
          \<lparr>rx = [], tx_outcomes = [], tx = []\<rparr>)
   \<and> Conn_Read toy_aes small_pool conn_cut (replicate 20 0xAA)
       = Inr ((0, Some ErrUnexpectedEOF), replicate 20 0xAA, small_pool,
              conn_cut\<lparr>conn := \<lparr>rx = [], tx_outcomes = [], tx = []\<rparr>\<rparr>)
   \<and> read_view (Conn_Read toy_aes small_pool conn_in (replicate 20 0xAA))
       = Inr ((18, None), sample_payload @ replicate 2 0xAA,
              [sample_ciphertext @ replicate 46 0], [])
   \<and> dec (cipher conn_ready) = Some (sample_stream True)
   \<and> cfb_ok (sample_stream True) \<and> pool_ok small_pool
   \<and> net_Read (conn conn_ready) (replicate 20 0xAA)
       = ((18, None), sample_ciphertext @ replicate 2 0xAA, \<lparr>rx = [], tx_outcomes = [], tx = []\<rparr>)
   \<and> (\<exists>plain ci' bp' s'.
          decrypt (cipher conn_ready) (take 18 (sample_ciphertext @ replicate 2 0xAA))
            = Inr (plain, ci') \<and> length plain = 18
        \<and> dec ci' = Some s' \<and> cfb_ok s' \<and> pool_ok bp'
        \<and> Conn_Read toy_aes small_pool conn_ready (replicate 20 0xAA)
            = Inr ((18, None), plain @ drop 18 (replicate 20 0xAA), bp',
                   conn_ready\<lparr>conn := \<lparr>rx = [], tx_outcomes = [], tx = []\<rparr>, cipher := ci'\<rparr>))
   \<and> read_view (Conn_Read toy_aes small_pool conn_ready (replicate 20 0xAA))
       = Inr ((18, None), sample_payload @ replicate 2 0xAA,
              [sample_ciphertext @ replicate 46 0], [])"
proof -
  have d: "dec (cipher conn_cut) = None"
    by (simp add: conn_cut_def NewConn_def dec_sample)
  have p: "pool_ok small_pool"
    unfolding small_pool_def by (rule pool_ok_New)
  note cut = Conn_Read_spec [of conn_cut 3 ErrUnexpectedEOF "[1, 2, 3] @ replicate 13 0"
      "\<lparr>rx = [], tx_outcomes = [], tx = []\<rparr>" toy_aes small_pool "replicate 20 0xAA"]
  note ready = Conn_Read_spec [of conn_ready _ _ _ _ toy_aes small_pool "replicate 20 0xAA" _
      "sample_stream True" 18 None "sample_ciphertext @ replicate 2 0xAA"
      "\<lparr>rx = [], tx_outcomes = [], tx = []\<rparr>"]
  from cut d conn_cut_iv
  have 1: "Conn_Read toy_aes small_pool conn_cut (replicate 20 0xAA)
       = Inr ((0, Some ErrUnexpectedEOF), replicate 20 0xAA, small_pool,
              conn_cut\<lparr>conn := \<lparr>rx = [], tx_outcomes = [], tx = []\<rparr>\<rparr>)"
    by blast
  from ready conn_ready_fields(1) sample_stream_ok p conn_ready_net_Read
  have 2: "\<exists>plain ci' bp' s'.
          decrypt (cipher conn_ready) (take 18 (sample_ciphertext @ replicate 2 0xAA))
            = Inr (plain, ci') \<and> length plain = 18
        \<and> dec ci' = Some s' \<and> cfb_ok s' \<and> pool_ok bp'
        \<and> Conn_Read toy_aes small_pool conn_ready (replicate 20 0xAA)
            = Inr ((18, None), plain @ drop 18 (replicate 20 0xAA), bp',
                   conn_ready\<lparr>conn := \<lparr>rx = [], tx_outcomes = [], tx = []\<rparr>, cipher := ci'\<rparr>)"
    by blast
  from d conn_cut_iv 1 conn_in_read conn_ready_fields(1) sample_stream_ok p
    conn_ready_net_Read 2 conn_ready_read
  show ?thesis by blast
qed

lemma ReadFull_ok:
  "ReadFull r buf = ((k, None), buf', r') \<Longrightarrow> k = length buf \<and> length buf' = length buf"
  using ReadAtLeast_from_props [of r buf "length buf" 0 k None buf' r']
  by (simp add: ReadFull_def ReadAtLeast_def)

lemma initEncrypt_ok:
  "initEncrypt aes rnd ci = Inr ((iv, None), rnd', ci') \<Longrightarrow>
   length iv = blockSize
   \<and> ReadFull rnd (make_bytes blockSize) = ((blockSize, None), iv, rnd')
   \<and> (\<exists>s. NewCFBEncrypter (aes (key ci)) iv = Inr s \<and> cfb_ok s \<and> ci' = ci\<lparr>enc := Some s\<rparr>)"
  by (auto simp: initEncrypt_def aes_NewCipher_def NewCFBEncrypter_def
      dest: newCFB_ok ReadFull_ok split: sum.splits if_splits prod.splits option.splits)

lemma encrypt_ok:
  assumes "enc ci = Some s" "cfb_ok s"
  shows "\<exists>ct s'. encrypt ci src = Inr (ct, ci\<lparr>enc := Some s'\<rparr>) \<and> length ct = length src
     \<and> cfb_ok s'"
  using XORKeyStream_ok [OF assms(2), of src] assms(1)
  by (auto simp: encrypt_def)

lemma net_Write_tx:
  "net_Write t p = ((n, err), t2) \<Longrightarrow>
   tx t2 = tx t @ [take n p] \<and> n \<le> length p \<and> (err = None \<longrightarrow> n = length p) \<and> rx t2 = rx t"
  by (auto simp: net_Write_def min_def split: list.splits option.splits)

lemma Conn_Write_eq:
  "Conn_Write aes bp rnd c b =
     (case (if enc (cipher c) = None
            then (case initEncrypt aes rnd (cipher c) of
                    Inl p \<Rightarrow> Inl p
                  | Inr ((iv, Some err), rnd', ci) \<Rightarrow> Inr (Inl (err, rnd', c\<lparr>cipher := ci\<rparr>))
                  | Inr ((iv, None), rnd', ci) \<Rightarrow> Inr (Inr (iv, rnd', c\<lparr>cipher := ci\<rparr>)))
            else Inr (Inr ([], rnd, c))) of
        Inl p \<Rightarrow> Inl p
      | Inr (Inl (err, rnd', c1)) \<Rightarrow> Inr ((0, Some err), bp, rnd', c1)
      | Inr (Inr (iv, rnd', c1)) \<Rightarrow> Conn_Write_tail bp rnd' c1 iv b)"
  unfolding Conn_Write_def Conn_Write_tail_def by (rule refl)

lemma Conn_Write_tail_ok:
  assumes p: "pool_ok bp" and e: "enc (cipher c1) = Some s" and ok: "cfb_ok s"
    and liv: "iv = [] \<or> length iv = blockSize"
  shows "\<exists>ct ci' bp' n err t2 s'.
      encrypt (cipher c1) b = Inr (ct, ci') \<and> length ct = length b
    \<and> net_Write (conn c1) (iv @ ct) = ((n, err), t2)
    \<and> Conn_Write_tail bp rnd' c1 iv b
        = Inr ((n, err), bp', rnd', c1\<lparr>conn := t2, cipher := ci'\<rparr>)
    \<and> tx t2 = tx (conn c1) @ [take n (iv @ ct)]
    \<and> (err = None \<longrightarrow> n = length iv + length b)
    \<and> pool_ok bp' \<and> enc ci' = Some s' \<and> cfb_ok s'"
proof -
  obtain buf bp1 where g: "GetAtLeast bp (length iv + length b) = (buf, bp1)"
    by (cases "GetAtLeast bp (length iv + length b)")
  from GetAtLeast_length [OF p g] have lb: "length iv + length b \<le> length buf"
    and p1: "pool_ok bp1" by simp_all
  from encrypt_ok [OF e ok, of b] obtain ct s' where
    en: "encrypt (cipher c1) b = Inr (ct, (cipher c1)\<lparr>enc := Some s'\<rparr>)"
    and lc: "length ct = length b" and ok': "cfb_ok s'" by blast
  define q where "q = take (length iv + length b) buf"
  have lq: "length q = length iv + length b" using lb by (simp add: q_def)
  have e2: "take (length iv) (copy q iv) @ copy (drop (length iv) (copy q iv)) ct = iv @ ct"
    using lq lc by (auto simp: copy_def)
  have e3: "iv = [] \<Longrightarrow> copy q ct = ct"
    using lq lc by (auto simp: copy_def)
  obtain n err t2 where w: "net_Write (conn c1) (iv @ ct) = ((n, err), t2)"
    by (metis prod.exhaust)
  define bp' where "bp' = Put bp1 (copy buf (iv @ ct))"
  have p': "pool_ok bp'" unfolding bp'_def using p1 by (rule pool_ok_Put)
  have tl: "Conn_Write_tail bp rnd' c1 iv b
      = Inr ((n, err), bp', rnd', c1\<lparr>conn := t2, cipher := (cipher c1)\<lparr>enc := Some s'\<rparr>\<rparr>)"
    using g lb en lc w
    by (auto simp: Conn_Write_tail_def Let_def q_def [symmetric] e2 e3 bp'_def)
  from net_Write_tx [OF w] lc
  have "tx t2 = tx (conn c1) @ [take n (iv @ ct)]" "err = None \<longrightarrow> n = length iv + length b"
    by simp_all
  with en lc w tl p' ok' show ?thesis by auto
qed

lemma conn_out_write:
  "write_view (Conn_Write toy_aes small_pool [(sample_iv, None)] conn_out sample_payload)
     = Inr ((34, None), [sample_iv @ sample_ciphertext @ replicate 30 0], [],
            [sample_iv @ sample_ciphertext])"
  by (simp add: write_view_def Conn_Write_def conn_out_def NewConn_def dec_sample
      initEncrypt_def key_sample_cipher aes_NewCipher_def ReadFull_chunk NewCFBEncrypter_def
      newCFB_def encrypt_def XORKeyStream.simps Let_def blockSize_def
      small_pool_def NewBytePool_def GetAtLeast_def Get_def Put_def net_Write_def
      make_bytes_def sample_iv_def sample_payload_def sample_ciphertext_def toy_aes_def
      copy_def xorBytes_def)

lemma conn_out_write_twice:
  "(case Conn_Write toy_aes small_pool [(sample_iv, None)] conn_out sample_payload of
      Inl p \<Rightarrow> Inl p
    | Inr (_, bp1, rnd1, c1) \<Rightarrow> write_view (Conn_Write toy_aes bp1 rnd1 c1 [71, 69, 84]))
   = Inr ((3, None), [[195, 121, 222] @ drop 3 (sample_iv @ sample_ciphertext @ replicate 30 0)],
          [], [sample_iv @ sample_ciphertext, [195, 121, 222]])"
  by (simp add: write_view_def Conn_Write_def conn_out_def NewConn_def dec_sample
      initEncrypt_def key_sample_cipher aes_NewCipher_def ReadFull_chunk NewCFBEncrypter_def
      newCFB_def encrypt_def XORKeyStream.simps Let_def blockSize_def
      small_pool_def NewBytePool_def GetAtLeast_def Get_def Put_def net_Write_def
      make_bytes_def sample_iv_def sample_payload_def sample_ciphertext_def toy_aes_def
      copy_def xorBytes_def)

text \<open>
  Claim C1. While \<open>enc\<close> is nil, the key is a derived one and the random source
  delivers, \<open>Write\<close> draws an IV of \<open>blockSize\<close> = 16 bytes from the random source, sets
  \<open>enc\<close> to the CFB encrypter of the key and that IV, and makes exactly one transport
  write, of the IV followed by the encryption of \<open>b\<close>. Once \<open>enc\<close> is set (to a well-formed stream), \<open>Write\<close> makes exactly
  one transport write, of the encryption of \<open>b\<close> alone. In both cases (for a well-formed
  pool) \<open>Write\<close> returns the count and error of that transport write, the connection has
  sent the first \<open>n\<close> bytes of that buffer, a nil error means \<open>n\<close> is \<open>len(iv)+len(b)\<close>
  on the first write and \<open>len(b)\<close> on a later one, and \<open>enc\<close> stays set afterwards.
\<close>

theorem Conn_Write_spec:
  "(enc (cipher c) = None \<and> pool_ok bp
      \<and> key (cipher c) = toKey Sum256 method password
      \<and> ReadFull rnd (make_bytes blockSize) = ((k, None), iv, rnd')
    \<longrightarrow> length iv = blockSize \<and> blockSize = 16
      \<and> (\<exists>s0 ct ci' bp' n err t2 s'.
            NewCFBEncrypter (aes (key (cipher c))) iv = Inr s0
          \<and> initEncrypt aes rnd (cipher c) = Inr ((iv, None), rnd', (cipher c)\<lparr>enc := Some s0\<rparr>)
          \<and> encrypt ((cipher c)\<lparr>enc := Some s0\<rparr>) b = Inr (ct, ci') \<and> length ct = length b
          \<and> net_Write (conn c) (iv @ ct) = ((n, err), t2)
          \<and> Conn_Write aes bp rnd c b = Inr ((n, err), bp', rnd', c\<lparr>conn := t2, cipher := ci'\<rparr>)
          \<and> tx t2 = tx (conn c) @ [take n (iv @ ct)]
          \<and> (err = None \<longrightarrow> n = length iv + length b)
          \<and> pool_ok bp' \<and> enc ci' = Some s' \<and> cfb_ok s'))
   \<and> (enc (cipher c) = Some s \<and> cfb_ok s \<and> pool_ok bp
    \<longrightarrow> (\<exists>ct ci' bp' n err t2 s'.
            encrypt (cipher c) b = Inr (ct, ci') \<and> length ct = length b
          \<and> net_Write (conn c) ct = ((n, err), t2)
          \<and> Conn_Write aes bp rnd c b = Inr ((n, err), bp', rnd, c\<lparr>conn := t2, cipher := ci'\<rparr>)
          \<and> tx t2 = tx (conn c) @ [take n ct]
          \<and> (err = None \<longrightarrow> n = length b)
          \<and> pool_ok bp' \<and> enc ci' = Some s' \<and> cfb_ok s'))"
proof (intro conjI impI)
  assume a: "enc (cipher c) = None \<and> pool_ok bp
      \<and> key (cipher c) = toKey Sum256 method password
      \<and> ReadFull rnd (make_bytes blockSize) = ((k, None), iv, rnd')"
  then have e: "enc (cipher c) = None" and p: "pool_ok bp"
    and ky: "key (cipher c) = toKey Sum256 method password"
    and rf: "ReadFull rnd (make_bytes blockSize) = ((k, None), iv, rnd')" by simp_all
  from ReadFull_ok [OF rf] have liv: "length iv = blockSize" by simp
  define s0 where "s0 = \<lparr>cfb_b = aes (key (cipher c)), cfb_next = iv,
      cfb_out = make_bytes blockSize, cfb_outUsed = blockSize, cfb_decrypt = False\<rparr>"
  define ci where "ci = (cipher c)\<lparr>enc := Some s0\<rparr>"
  have n0: "NewCFBEncrypter (aes (key (cipher c))) iv = Inr s0"
    using liv by (simp add: NewCFBEncrypter_def newCFB_block s0_def)
  have ok0: "cfb_ok s0" using newCFB_ok n0 unfolding NewCFBEncrypter_def by blast
  have i: "initEncrypt aes rnd (cipher c) = Inr ((iv, None), rnd', ci)"
    using n0 rf by (simp add: initEncrypt_def ky aes_NewCipher_toKey ci_def)
  show "length iv = blockSize" by (rule liv)
  show "blockSize = 16" by (simp add: blockSize_def)
  have ec: "enc (cipher (c\<lparr>cipher := ci\<rparr>)) = Some s0" by (simp add: ci_def)
  have cw: "Conn_Write aes bp rnd c b = Conn_Write_tail bp rnd' (c\<lparr>cipher := ci\<rparr>) iv b"
    by (simp add: Conn_Write_eq e i)
  from Conn_Write_tail_ok [OF p ec ok0, of iv b rnd'] liv
  obtain ct ci' bp' n err t2 s' where
    r: "encrypt ci b = Inr (ct, ci')" "length ct = length b"
       "net_Write (conn c) (iv @ ct) = ((n, err), t2)"
       "Conn_Write_tail bp rnd' (c\<lparr>cipher := ci\<rparr>) iv b
          = Inr ((n, err), bp', rnd', c\<lparr>conn := t2, cipher := ci'\<rparr>)"
       "tx t2 = tx (conn c) @ [take n (iv @ ct)]"
       "err = None \<longrightarrow> n = length iv + length b"
       "pool_ok bp'" "enc ci' = Some s'" "cfb_ok s'"
    by auto
  from n0 i r cw
  show "\<exists>s0 ct ci' bp' n err t2 s'.
            NewCFBEncrypter (aes (key (cipher c))) iv = Inr s0
          \<and> initEncrypt aes rnd (cipher c) = Inr ((iv, None), rnd', (cipher c)\<lparr>enc := Some s0\<rparr>)
          \<and> encrypt ((cipher c)\<lparr>enc := Some s0\<rparr>) b = Inr (ct, ci') \<and> length ct = length b
          \<and> net_Write (conn c) (iv @ ct) = ((n, err), t2)
          \<and> Conn_Write aes bp rnd c b = Inr ((n, err), bp', rnd', c\<lparr>conn := t2, cipher := ci'\<rparr>)
          \<and> tx t2 = tx (conn c) @ [take n (iv @ ct)]
          \<and> (err = None \<longrightarrow> n = length iv + length b)
          \<and> pool_ok bp' \<and> enc ci' = Some s' \<and> cfb_ok s'"
    unfolding ci_def by (intro exI conjI) (assumption | simp)+
next
  assume a: "enc (cipher c) = Some s \<and> cfb_ok s \<and> pool_ok bp"
  then have e: "enc (cipher c) = Some s" and ok: "cfb_ok s" and p: "pool_ok bp" by simp_all
  have cw: "Conn_Write aes bp rnd c b = Conn_Write_tail bp rnd c [] b"
    by (simp add: Conn_Write_eq e)
  from Conn_Write_tail_ok [OF p e ok, of "[]" b rnd] cw
  show "\<exists>ct ci' bp' n err t2 s'.
            encrypt (cipher c) b = Inr (ct, ci') \<and> length ct = length b
          \<and> net_Write (conn c) ct = ((n, err), t2)
          \<and> Conn_Write aes bp rnd c b = Inr ((n, err), bp', rnd, c\<lparr>conn := t2, cipher := ci'\<rparr>)
          \<and> tx t2 = tx (conn c) @ [take n ct]
          \<and> (err = None \<longrightarrow> n = length b)
          \<and> pool_ok bp' \<and> enc ci' = Some s' \<and> cfb_ok s'"
    by simp
qed


lemma conn_ready_write:
  "write_view (Conn_Write toy_aes small_pool [] conn_ready sample_payload)
     = Inr ((18, None), [sample_ciphertext @ replicate 46 0], [], [sample_ciphertext])"
  by (simp add: write_view_def Conn_Write_def conn_ready_fields sample_stream_def
      key_sample_cipher encrypt_def XORKeyStream.simps Let_def blockSize_def
      small_pool_def NewBytePool_def GetAtLeast_def Get_def Put_def net_Write_def
      make_bytes_def sample_iv_def sample_payload_def sample_ciphertext_def toy_aes_def
      copy_def xorBytes_def)

lemma sample_ReadFull:
  "ReadFull [(sample_iv, None)] (make_bytes blockSize) = ((16, None), sample_iv, [])"
  by (simp add: ReadFull_chunk sample_iv_def blockSize_def make_bytes_def)

theorem Conn_Write_spec_witness:
  "enc (cipher conn_out) = None \<and> pool_ok small_pool
   \<and> key (cipher conn_out) = toKey toy_Sum256 ''aes-128-cfb'' ''pw''
   \<and> ReadFull [(sample_iv, None)] (make_bytes blockSize) = ((16, None), sample_iv, [])
   \<and> length sample_iv = blockSize
   \<and> (\<exists>s0 ct ci' bp' n err t2 s'.
          NewCFBEncrypter (toy_aes (key (cipher conn_out))) sample_iv = Inr s0
        \<and> initEncrypt toy_aes [(sample_iv, None)] (cipher conn_out)
            = Inr ((sample_iv, None), [], (cipher conn_out)\<lparr>enc := Some s0\<rparr>)
        \<and> encrypt ((cipher conn_out)\<lparr>enc := Some s0\<rparr>) sample_payload = Inr (ct, ci')
        \<and> length ct = length sample_payload
        \<and> net_Write (conn conn_out) (sample_iv @ ct) = ((n, err), t2)
        \<and> Conn_Write toy_aes small_pool [(sample_iv, None)] conn_out sample_payload
            = Inr ((n, err), bp', [], conn_out\<lparr>conn := t2, cipher := ci'\<rparr>)
        \<and> tx t2 = tx (conn conn_out) @ [take n (sample_iv @ ct)]
        \<and> pool_ok bp' \<and> enc ci' = Some s' \<and> cfb_ok s')
   \<and> write_view (Conn_Write toy_aes small_pool [(sample_iv, None)] conn_out sample_payload)
       = Inr ((34, None), [sample_iv @ sample_ciphertext @ replicate 30 0], [],
              [sample_iv @ sample_ciphertext])
   \<and> (case Conn_Write toy_aes small_pool [(sample_iv, None)] conn_out sample_payload of
        Inl p \<Rightarrow> Inl p
      | Inr (_, bp1, rnd1, c1) \<Rightarrow> write_view (Conn_Write toy_aes bp1 rnd1 c1 [71, 69, 84]))
     = Inr ((3, None), [[195, 121, 222] @ drop 3 (sample_iv @ sample_ciphertext @ replicate 30 0)],
            [], [sample_iv @ sample_ciphertext, [195, 121, 222]])
   \<and> enc (cipher conn_ready) = Some (sample_stream False) \<and> cfb_ok (sample_stream False)
   \<and> (\<exists>ct ci' bp' n err t2 s'.
          encrypt (cipher conn_ready) sample_payload = Inr (ct, ci')
        \<and> length ct = length sample_payload
        \<and> net_Write (conn conn_ready) ct = ((n, err), t2)
        \<and> Conn_Write toy_aes small_pool [] conn_ready sample_payload
            = Inr ((n, err), bp', [], conn_ready\<lparr>conn := t2, cipher := ci'\<rparr>)
        \<and> tx t2 = tx (conn conn_ready) @ [take n ct]
        \<and> pool_ok bp' \<and> enc ci' = Some s' \<and> cfb_ok s')
   \<and> write_view (Conn_Write toy_aes small_pool [] conn_ready sample_payload)
       = Inr ((18, None), [sample_ciphertext @ replicate 46 0], [], [sample_ciphertext])"
proof -
  have e: "enc (cipher conn_out) = None"
    by (simp add: conn_out_def NewConn_def dec_sample)
  have ky: "key (cipher conn_out) = toKey toy_Sum256 ''aes-128-cfb'' ''pw''"
    by (simp add: conn_out_def NewConn_def sample_cipher_def NewCipher_def)
  have p: "pool_ok small_pool"
    unfolding small_pool_def by (rule pool_ok_New)
  note first = Conn_Write_spec [of conn_out small_pool toy_Sum256 "''aes-128-cfb''" "''pw''"
      "[(sample_iv, None)]" 16 sample_iv "[]" toy_aes sample_payload]
  note later = Conn_Write_spec [of conn_ready small_pool toy_Sum256 "''aes-128-cfb''" "''pw''"
      "[]" 0 "[]" "[]" toy_aes sample_payload "sample_stream False"]
  from first e p ky sample_ReadFull
  have 1: "length sample_iv = blockSize"
    and 2: "\<exists>s0 ct ci' bp' n err t2 s'.
          NewCFBEncrypter (toy_aes (key (cipher conn_out))) sample_iv = Inr s0
        \<and> initEncrypt toy_aes [(sample_iv, None)] (cipher conn_out)
            = Inr ((sample_iv, None), [], (cipher conn_out)\<lparr>enc := Some s0\<rparr>)
        \<and> encrypt ((cipher conn_out)\<lparr>enc := Some s0\<rparr>) sample_payload = Inr (ct, ci')
        \<and> length ct = length sample_payload
        \<and> net_Write (conn conn_out) (sample_iv @ ct) = ((n, err), t2)
        \<and> Conn_Write toy_aes small_pool [(sample_iv, None)] conn_out sample_payload
            = Inr ((n, err), bp', [], conn_out\<lparr>conn := t2, cipher := ci'\<rparr>)
        \<and> tx t2 = tx (conn conn_out) @ [take n (sample_iv @ ct)]
        \<and> pool_ok bp' \<and> enc ci' = Some s' \<and> cfb_ok s'"
    by blast+
  from later conn_ready_fields(2) sample_stream_ok [of False] p
  have 3: "\<exists>ct ci' bp' n err t2 s'.
          encrypt (cipher conn_ready) sample_payload = Inr (ct, ci')
        \<and> length ct = length sample_payload
        \<and> net_Write (conn conn_ready) ct = ((n, err), t2)
        \<and> Conn_Write toy_aes small_pool [] conn_ready sample_payload
            = Inr ((n, err), bp', [], conn_ready\<lparr>conn := t2, cipher := ci'\<rparr>)
        \<and> tx t2 = tx (conn conn_ready) @ [take n ct]
        \<and> pool_ok bp' \<and> enc ci' = Some s' \<and> cfb_ok s'"
    by blast
  from e p ky sample_ReadFull 1 2 conn_out_write conn_out_write_twice
    conn_ready_fields(2) sample_stream_ok [of False] 3 conn_ready_write
  show ?thesis by blast
qed

section \<open>Properties of the server-side address decoder\<close>

lemma be16_or:
  "(ucast (lo :: byte) :: 16 word) + push_bit 8 (ucast (hi :: byte))
     = ucast lo OR push_bit 8 (ucast hi)"
  by (rule disjunctive_add) (auto simp: bit_simps dest: bit_imp_le_length)

lemma be16:
  fixes hi lo :: byte
  shows "unat (BigEndian_Uint16 [hi, lo]) = 256 * unat hi + unat lo"
proof -
  have lo: "unat lo < 256" and hi: "unat hi < 256"
    using unsigned_less [of lo] unsigned_less [of hi] by simp_all
  have a: "unat (ucast lo :: 16 word) = unat lo"
    using lo by (simp add: unsigned_ucast_eq take_bit_nat_eq_self)
  have ah: "unat (ucast hi :: 16 word) = unat hi"
    using hi by (simp add: unsigned_ucast_eq take_bit_nat_eq_self)
  have "unat (push_bit 8 (ucast hi :: 16 word)) = take_bit 16 (push_bit 8 (unat hi))"
    by (simp add: unsigned_push_bit_eq ah)
  also have "\<dots> = 256 * unat hi"
    using hi by (simp add: take_bit_nat_eq_self push_bit_eq_mult)
  finally have b: "unat (push_bit 8 (ucast hi :: 16 word)) = 256 * unat hi" .
  have "unat ((ucast lo :: 16 word) + push_bit 8 (ucast hi))
      = unat (ucast lo :: 16 word) + unat (push_bit 8 (ucast hi) :: 16 word)"
    using lo hi by (subst unat_add_lem [THEN iffD1]) (simp_all add: a b)
  then show ?thesis
    by (simp add: BigEndian_Uint16_def be16_or [symmetric] a b)
qed


lemma Conn_Read_props:
  "Conn_Read aes bp c b = Inr ((n, e), b', bp', c') \<Longrightarrow> length b' = length b \<and> n \<le> length b"
  by (auto simp: Conn_Read_def Let_def net_Read_def
      split: if_splits sum.splits prod.splits option.splits dest: reader_Read_count)

lemma Conn_ReadAtLeast_from_props:
  "Conn_ReadAtLeast_from aes bp c buf mn n = Inr ((k, e), buf', bp', c') \<Longrightarrow> n \<le> length buf \<Longrightarrow>
     length buf' = length buf \<and> k \<le> length buf \<and> (e = None \<longrightarrow> mn \<le> k)"
proof (induction aes bp c buf mn n arbitrary: k e buf' bp' c' rule: Conn_ReadAtLeast_from.induct)
  case (1 aes bp c buf mn n)
  show ?case
  proof (cases "length buf < mn \<or> \<not> n < mn")
    case True
    with "1.prems" show ?thesis
      by (subst (asm) Conn_ReadAtLeast_from.simps) (auto split: if_splits)
  next
    case False
    from False "1.prems"(1) obtain nn err p bp1 c1 where
      rd: "Conn_Read aes bp c (drop n buf) = Inr ((nn, err), p, bp1, c1)"
      by (subst (asm) Conn_ReadAtLeast_from.simps)
         (cases "Conn_Read aes bp c (drop n buf)"; auto)
    from Conn_Read_props [OF rd] have lp: "length p = length buf - n" and nn: "nn \<le> length buf - n"
      by simp_all
    show ?thesis
    proof (cases err)
      case None
      with False rd "1.prems"(1)
      have rec: "Conn_ReadAtLeast_from aes bp1 c1 (take n buf @ p) mn (n + nn)
          = Inr ((k, e), buf', bp', c')"
        by (subst (asm) Conn_ReadAtLeast_from.simps) simp
      have "n + nn \<le> length (take n buf @ p)" using lp nn "1.prems"(2) by simp
      from "1.IH" [OF _ _ rd refl refl _ refl refl rec this] False None
      show ?thesis using lp "1.prems"(2) by simp
    next
      case (Some a)
      with False rd "1.prems" lp nn show ?thesis
        by (subst (asm) Conn_ReadAtLeast_from.simps) (auto split: if_splits)
    qed
  qed
qed

lemma Conn_ReadFull_ok:
  "Conn_ReadFull aes bp c buf = Inr ((k, None), buf', bp', c') \<Longrightarrow>
   k = length buf \<and> length buf' = length buf"
  using Conn_ReadAtLeast_from_props [of aes bp c buf "length buf" 0 k None buf' bp' c']
  by (simp add: Conn_ReadFull_def)


lemma take_make_bytes [simp]: "take k (make_bytes n) = make_bytes (min k n)"
  by (simp add: make_bytes_def)

lemma drop_make_bytes [simp]: "drop k (make_bytes n) = make_bytes (n - k)"
  by (simp add: make_bytes_def)

lemma make_bytes_0 [simp]: "make_bytes 0 = []"
  by (simp add: make_bytes_def)

lemma readTargetHost_other:
  assumes r1: "Conn_ReadFull aes bp c (make_bytes 1) = Inr ((k1, None), [ty], bp1, c1)"
    and ty: "ty \<noteq> 1" "ty \<noteq> 4" "ty \<noteq> 3"
  shows "readTargetHost I J aes bp c = Inr (([], Some ErrAddrType), bp1, c1)"
  unfolding readTargetHost_def Let_def
  using r1 ty
  by (simp add: typeIPv4_def typeIPv6_def typeDomain_def)

lemma readTargetHost_ip:
  assumes r1: "Conn_ReadFull aes bp c (make_bytes 1) = Inr ((k1, None), [ty], bp1, c1)"
    and ty: "ty = 1 \<and> m = 4 \<or> ty = 4 \<and> m = 16"
    and r2: "Conn_ReadFull aes bp1 c1 (make_bytes (m + 2)) = Inr ((k, None), d, bp2, c2)"
  shows "readTargetHost I J aes bp c
    = Inr ((J (I (take m d)) (Itoa (unat (BigEndian_Uint16 (drop m d)))), None), bp2, c2)"
proof -
  from Conn_ReadFull_ok [OF r2] have ld: "length d = m + 2" by simp
  from ty show ?thesis
  proof
    assume "ty = 1 \<and> m = 4"
    then show ?thesis
      unfolding readTargetHost_def Let_def
      using r1 r2 ld
      by (simp add: typeIPv4_def typeIPv6_def typeDomain_def IPv4len_def IPv6len_def)
  next
    assume "ty = 4 \<and> m = 16"
    then show ?thesis
      unfolding readTargetHost_def Let_def
      using r1 r2 ld
      by (simp add: typeIPv4_def typeIPv6_def typeDomain_def IPv4len_def IPv6len_def)
  qed
qed

lemma readTargetHost_domain:
  assumes r1: "Conn_ReadFull aes bp c (make_bytes 1) = Inr ((k1, None), [3], bp1, c1)"
    and r2: "Conn_ReadFull aes bp1 c1 (make_bytes 1) = Inr ((k2, None), [l], bp2, c2)"
    and r3: "Conn_ReadFull aes bp2 c2 (make_bytes (unat l + 2)) = Inr ((k3, None), d, bp3, c3)"
  shows "readTargetHost I J aes bp c
    = Inr ((J (string_of_bytes (take (unat l) d))
              (Itoa (unat (BigEndian_Uint16 (drop (unat l) d)))), None), bp3, c3)"
proof -
  from Conn_ReadFull_ok [OF r3] have ld: "length d = unat l + 2" by simp
  have l: "unat l < 256" using unsigned_less [of l] by simp
  then have mn: "min (Suc (Suc (unat l))) 267 = Suc (Suc (unat l))" by simp
  show ?thesis
    unfolding readTargetHost_def Let_def
    using r1 r2 r3 ld l
    by (simp add: typeIPv4_def typeIPv6_def typeDomain_def mn)
qed

lemma readTargetHost_read_fail:
  assumes "Conn_ReadFull aes bp c (make_bytes 1) = Inr ((k1, Some e), p1, bp1, c1)"
  shows "readTargetHost I J aes bp c = Inr (([], Some e), bp1, c1)"
  unfolding readTargetHost_def Let_def using assms by simp

lemma sample_host_reads:
  "\<exists>k1 bp1 c1 k2 bp2 c2 k3 bp3 c3.
      Conn_ReadFull toy_aes small_pool conn_in (make_bytes 1) = Inr ((k1, None), [3], bp1, c1)
    \<and> Conn_ReadFull toy_aes bp1 c1 (make_bytes 1) = Inr ((k2, None), [11], bp2, c2)
    \<and> Conn_ReadFull toy_aes bp2 c2 (make_bytes (unat (11 :: byte) + 2))
        = Inr ((k3, None), [101, 120, 97, 109, 112, 108, 101, 46, 99, 111, 109, 0, 80], bp3, c3)
    \<and> rx (conn c3) = [([7, 5, 51], None)]"
  by (simp add: Conn_ReadFull_def Conn_ReadAtLeast_from.simps Conn_Read_def conn_in_def NewConn_def net_ReadFull_def
      net_ReadAtLeast_def ReadAtLeast_chunk blockSize_def dec_sample sample_iv_def
      initDecrypt_def key_sample_cipher aes_NewCipher_def NewCFBDecrypter_def newCFB_def
      small_pool_def NewBytePool_def GetAtLeast_def Get_def Put_def net_Read_def
      sample_ciphertext_def sample_payload_def decrypt_def XORKeyStream.simps Let_def
      toy_aes_def xorBytes_def copy_def make_bytes_def replicate_add [symmetric])

text \<open>
  Claim C4. \<open>readTargetHost\<close> first fills a 1-byte buffer with \<open>ReadFull\<close> on the decrypting
  connection; when that succeeds the byte read is the address type. For a type other than
  1, 3 and 4 the result is the unsupported-address-type error and nothing more is read.
  For type 1 (IPv4) one more \<open>ReadFull\<close> of 4 + 2 bytes follows, for type 4 (IPv6) one
  of 16 + 2 bytes, and for type 3 (domain) one of a single length byte \<open>L\<close> and then one
  of \<open>L\<close> + 2 bytes. When these reads succeed the result is \<open>JoinHostPort\<close> of the host and
  of \<open>Itoa\<close> of the port, where the host is the \<open>IP.String\<close> text of the 4 or 16 address
  bytes, or the \<open>L\<close> domain bytes read as characters, and the port is the last two bytes
  read as a big-endian number, \<open>256 * hi + lo\<close>; the pool and the connection are those
  left by the last read.
\<close>

theorem readTargetHost_spec:
  assumes r1: "Conn_ReadFull aes bp c (make_bytes 1) = Inr ((k1, None), p1, bp1, c1)"
  shows "length p1 = 1
    \<and> (p1 ! 0 \<noteq> 1 \<and> p1 ! 0 \<noteq> 3 \<and> p1 ! 0 \<noteq> 4
         \<longrightarrow> readTargetHost I J aes bp c = Inr (([], Some ErrAddrType), bp1, c1))
    \<and> (\<forall>k d bp2 c2. p1 ! 0 = 1
           \<and> Conn_ReadFull aes bp1 c1 (make_bytes (4 + 2)) = Inr ((k, None), d, bp2, c2)
         \<longrightarrow> length d = 4 + 2
           \<and> readTargetHost I J aes bp c
               = Inr ((J (I (take 4 d)) (Itoa (unat (BigEndian_Uint16 (drop 4 d)))), None),
                      bp2, c2))
    \<and> (\<forall>k d bp2 c2. p1 ! 0 = 4
           \<and> Conn_ReadFull aes bp1 c1 (make_bytes (16 + 2)) = Inr ((k, None), d, bp2, c2)
         \<longrightarrow> length d = 16 + 2
           \<and> readTargetHost I J aes bp c
               = Inr ((J (I (take 16 d)) (Itoa (unat (BigEndian_Uint16 (drop 16 d)))), None),
                      bp2, c2))
    \<and> (\<forall>k2 p2 bp2 c2 k3 d bp3 c3. p1 ! 0 = 3
           \<and> Conn_ReadFull aes bp1 c1 (make_bytes 1) = Inr ((k2, None), p2, bp2, c2)
           \<and> Conn_ReadFull aes bp2 c2 (make_bytes (unat (p2 ! 0) + 2))
               = Inr ((k3, None), d, bp3, c3)
         \<longrightarrow> length p2 = 1 \<and> length d = unat (p2 ! 0) + 2
           \<and> readTargetHost I J aes bp c
               = Inr ((J (string_of_bytes (take (unat (p2 ! 0)) d))
                         (Itoa (unat (BigEndian_Uint16 (drop (unat (p2 ! 0)) d)))), None),
                      bp3, c3))
    \<and> (\<forall>hi lo. unat (BigEndian_Uint16 [hi, lo]) = 256 * unat hi + unat lo)"
proof -
  from Conn_ReadFull_ok [OF r1] have l1: "length p1 = 1" by simp
  then obtain ty where p1: "p1 = [ty]" by (cases p1) simp_all
  note r1' = r1 [unfolded p1]
  have other: "p1 ! 0 \<noteq> 1 \<and> p1 ! 0 \<noteq> 3 \<and> p1 ! 0 \<noteq> 4
      \<longrightarrow> readTargetHost I J aes bp c = Inr (([], Some ErrAddrType), bp1, c1)"
    using readTargetHost_other [OF r1'] by (simp add: p1)
  have v4: "\<forall>k d bp2 c2. p1 ! 0 = 1
           \<and> Conn_ReadFull aes bp1 c1 (make_bytes (4 + 2)) = Inr ((k, None), d, bp2, c2)
         \<longrightarrow> length d = 4 + 2
           \<and> readTargetHost I J aes bp c
               = Inr ((J (I (take 4 d)) (Itoa (unat (BigEndian_Uint16 (drop 4 d)))), None),
                      bp2, c2)"
  proof (intro allI impI, elim conjE)
    fix k d bp2 c2
    assume ty: "p1 ! 0 = 1"
      and r2: "Conn_ReadFull aes bp1 c1 (make_bytes (4 + 2)) = Inr ((k, None), d, bp2, c2)"
    from ty have "ty = 1 \<and> (4::nat) = 4 \<or> ty = 4 \<and> (4::nat) = 16" by (simp add: p1)
    from readTargetHost_ip [OF r1' this r2] Conn_ReadFull_ok [OF r2]
    show "length d = 4 + 2
           \<and> readTargetHost I J aes bp c
               = Inr ((J (I (take 4 d)) (Itoa (unat (BigEndian_Uint16 (drop 4 d)))), None),
                      bp2, c2)"
      by simp
  qed
  have v6: "\<forall>k d bp2 c2. p1 ! 0 = 4
           \<and> Conn_ReadFull aes bp1 c1 (make_bytes (16 + 2)) = Inr ((k, None), d, bp2, c2)
         \<longrightarrow> length d = 16 + 2
           \<and> readTargetHost I J aes bp c
               = Inr ((J (I (take 16 d)) (Itoa (unat (BigEndian_Uint16 (drop 16 d)))), None),
                      bp2, c2)"
  proof (intro allI impI, elim conjE)
    fix k d bp2 c2
    assume ty: "p1 ! 0 = 4"
      and r2: "Conn_ReadFull aes bp1 c1 (make_bytes (16 + 2)) = Inr ((k, None), d, bp2, c2)"
    from ty have "ty = 1 \<and> (16::nat) = 4 \<or> ty = 4 \<and> (16::nat) = 16" by (simp add: p1)
    from readTargetHost_ip [OF r1' this r2] Conn_ReadFull_ok [OF r2]
    show "length d = 16 + 2
           \<and> readTargetHost I J aes bp c
               = Inr ((J (I (take 16 d)) (Itoa (unat (BigEndian_Uint16 (drop 16 d)))), None),
                      bp2, c2)"
      by simp
  qed
  have dom: "\<forall>k2 p2 bp2 c2 k3 d bp3 c3. p1 ! 0 = 3
           \<and> Conn_ReadFull aes bp1 c1 (make_bytes 1) = Inr ((k2, None), p2, bp2, c2)
           \<and> Conn_ReadFull aes bp2 c2 (make_bytes (unat (p2 ! 0) + 2))
               = Inr ((k3, None), d, bp3, c3)
         \<longrightarrow> length p2 = 1 \<and> length d = unat (p2 ! 0) + 2
           \<and> readTargetHost I J aes bp c
               = Inr ((J (string_of_bytes (take (unat (p2 ! 0)) d))
                         (Itoa (unat (BigEndian_Uint16 (drop (unat (p2 ! 0)) d)))), None),
                      bp3, c3)"
  proof (intro allI impI, elim conjE)
    fix k2 p2 bp2 c2 k3 d bp3 c3
    assume ty: "p1 ! 0 = 3"
      and r2: "Conn_ReadFull aes bp1 c1 (make_bytes 1) = Inr ((k2, None), p2, bp2, c2)"
      and r3: "Conn_ReadFull aes bp2 c2 (make_bytes (unat (p2 ! 0) + 2))
               = Inr ((k3, None), d, bp3, c3)"
    from Conn_ReadFull_ok [OF r2] have l2: "length p2 = 1" by simp
    then obtain l where p2: "p2 = [l]" by (cases p2) simp_all
    from ty have t3: "ty = 3" by (simp add: p1)
    from r3 have r3': "Conn_ReadFull aes bp2 c2 (make_bytes (unat l + 2))
        = Inr ((k3, None), d, bp3, c3)" by (simp add: p2)
    from readTargetHost_domain [OF r1' [unfolded t3] r2 [unfolded p2] r3']
      Conn_ReadFull_ok [OF r3] l2
    show "length p2 = 1 \<and> length d = unat (p2 ! 0) + 2
           \<and> readTargetHost I J aes bp c
               = Inr ((J (string_of_bytes (take (unat (p2 ! 0)) d))
                         (Itoa (unat (BigEndian_Uint16 (drop (unat (p2 ! 0)) d)))), None),
                      bp3, c3)"
      by (simp add: p2)
  qed
  have be: "\<forall>hi lo. unat (BigEndian_Uint16 [hi, lo]) = 256 * unat hi + unat lo"
    by (simp add: be16)
  from l1 other v4 v6 dom be show ?thesis by blast
qed

theorem readTargetHost_spec_witness:
  "\<exists>bp' c'. readTargetHost sample_ip sample_join toy_aes small_pool conn_in
        = Inr ((''example.com:80'', None), bp', c')
     \<and> rx (conn c') = [([7, 5, 51], None)]"
proof -
  from sample_host_reads obtain k1 bp1 c1 k2 bp2 c2 k3 bp3 c3 where
    r1: "Conn_ReadFull toy_aes small_pool conn_in (make_bytes 1) = Inr ((k1, None), [3], bp1, c1)"
    and r2: "Conn_ReadFull toy_aes bp1 c1 (make_bytes 1) = Inr ((k2, None), [11], bp2, c2)"
    and r3: "Conn_ReadFull toy_aes bp2 c2 (make_bytes (unat (11 :: byte) + 2))
        = Inr ((k3, None), [101, 120, 97, 109, 112, 108, 101, 46, 99, 111, 109, 0, 80], bp3, c3)"
    and rest: "rx (conn c3) = [([7, 5, 51], None)]"
    by blast
  from readTargetHost_spec [OF r1, of sample_ip sample_join] r2 r3
  have "readTargetHost sample_ip sample_join toy_aes small_pool conn_in
      = Inr ((sample_join (string_of_bytes (take (unat (11 :: byte))
                 [101, 120, 97, 109, 112, 108, 101, 46, 99, 111, 109, 0, 80]))
               (Itoa (unat (BigEndian_Uint16 (drop (unat (11 :: byte))
                 [101, 120, 97, 109, 112, 108, 101, 46, 99, 111, 109, 0, 80])))), None), bp3, c3)"
    by simp
  then have "readTargetHost sample_ip sample_join toy_aes small_pool conn_in
      = Inr ((''example.com:80'', None), bp3, c3)"
    by (simp add: be16 sample_join_def string_of_bytes_def char_of_def bit_Suc_0_iff Itoa.simps)
  with rest show ?thesis by blast
qed

end
